theory Spec2Isabelle
  imports Complex_Main "HOL-Library.Word"
begin

section \<open>Single-precision floating point, as the register codec uses it\<close>

text \<open>
  The parameter fields \<open>minVal\<close>, \<open>maxVal\<close>, \<open>step\<close> and \<open>value\<close> of
  \<^verbatim>\<open>main.cpp\<close> are C++ \<^verbatim>\<open>float\<close>s, IEEE 754 binary32 on the ESP32. A float is
  modelled by its sign and its exact magnitude, a rational number: \<open>Finite True m\<close> is
  \<open>-m\<close>, \<open>Finite False 0\<close> and \<open>Finite True 0\<close> are the two zeros. Every operation
  computes the exact rational result and rounds it to the nearest binary32 value, ties
  to even, as the hardware does. The floats proper are the values whose magnitude is
  non-negative and representable; literals, register conversions and the operations
  yield such values, and no theorem below needs the restriction.
\<close>

datatype f32 = Finite bool rat | Infinity bool | NaN

text \<open>The number of binary digits of a positive integer.\<close>

function bitlen_int :: "int \<Rightarrow> int" where
  "bitlen_int n = (if n \<le> 0 then 0 else 1 + bitlen_int (n div 2))"
  by pat_completeness auto
termination
  by (relation "measure nat") auto

declare bitlen_int.simps [simp del]

definition pow2 :: "int \<Rightarrow> rat" where
  "pow2 k = (if 0 \<le> k then 2 ^ nat k else 1 / 2 ^ nat (- k))"

text \<open>\<open>ilog2 m\<close> is the binary exponent of a positive rational: \<open>2^k \<le> m < 2^(k+1)\<close>.\<close>

definition ilog2 :: "rat \<Rightarrow> int" where
  "ilog2 m =
     (let (a, b) = quotient_of m;
          k = bitlen_int a - bitlen_int b
      in if pow2 k \<le> m then k else k - 1)"

definition round_half_even :: "rat \<Rightarrow> int" where
  "round_half_even x =
     (let n = \<lfloor>x\<rfloor>; d = x - of_int n
      in if d < 1 / 2 then n
         else if 1 / 2 < d then n + 1
         else if even n then n else n + 1)"

text \<open>
  The spacing of binary32 values around a magnitude with binary exponent \<open>e\<close> is
  \<open>2^(e - 23)\<close>; below \<open>2^-126\<close> (subnormal numbers) it stays \<open>2^-149\<close>.
\<close>

definition round_mag :: "rat \<Rightarrow> rat" where
  "round_mag m =
     (if m = 0 then 0
      else let q = pow2 (max (ilog2 m) (- 126) - 23)
           in of_int (round_half_even (m / q)) * q)"

definition rnd32 :: "bool \<Rightarrow> rat \<Rightarrow> f32" where
  "rnd32 s m = (let r = round_mag m in if pow2 128 \<le> r then Infinity s else Finite s r)"

text \<open>A decimal literal such as \<^verbatim>\<open>0.01f\<close> denotes the nearest binary32 value.\<close>

definition f32_lit :: "rat \<Rightarrow> f32" where
  "f32_lit q = rnd32 (q < 0) \<bar>q\<bar>"

fun sval :: "bool \<Rightarrow> rat \<Rightarrow> rat" where
  "sval s m = (if s then - m else m)"

fun f_neg :: "f32 \<Rightarrow> f32" where
  "f_neg (Finite s m) = Finite (\<not> s) m"
| "f_neg (Infinity s) = Infinity (\<not> s)"
| "f_neg NaN = NaN"

fun f_add :: "f32 \<Rightarrow> f32 \<Rightarrow> f32" where
  "f_add (Finite s a) (Finite t b) =
     (let v = sval s a + sval t b
      in if v = 0 then Finite (s \<and> t) 0 else rnd32 (v < 0) \<bar>v\<bar>)"
| "f_add (Finite s a) (Infinity t) = Infinity t"
| "f_add (Infinity s) (Finite t b) = Infinity s"
| "f_add (Infinity s) (Infinity t) = (if s = t then Infinity s else NaN)"
| "f_add NaN y = NaN"
| "f_add x NaN = NaN"

definition f_sub :: "f32 \<Rightarrow> f32 \<Rightarrow> f32" where
  "f_sub x y = f_add x (f_neg y)"

fun f_mul :: "f32 \<Rightarrow> f32 \<Rightarrow> f32" where
  "f_mul (Finite s a) (Finite t b) = rnd32 (s \<noteq> t) (a * b)"
| "f_mul (Finite s a) (Infinity t) = (if a = 0 then NaN else Infinity (s \<noteq> t))"
| "f_mul (Infinity s) (Finite t b) = (if b = 0 then NaN else Infinity (s \<noteq> t))"
| "f_mul (Infinity s) (Infinity t) = Infinity (s \<noteq> t)"
| "f_mul NaN y = NaN"
| "f_mul x NaN = NaN"

fun f_div :: "f32 \<Rightarrow> f32 \<Rightarrow> f32" where
  "f_div (Finite s a) (Finite t b) =
     (if b = 0 then (if a = 0 then NaN else Infinity (s \<noteq> t))
      else rnd32 (s \<noteq> t) (a / b))"
| "f_div (Finite s a) (Infinity t) = Finite (s \<noteq> t) 0"
| "f_div (Infinity s) (Finite t b) = Infinity (s \<noteq> t)"
| "f_div (Infinity s) (Infinity t) = NaN"
| "f_div NaN y = NaN"
| "f_div x NaN = NaN"

text \<open>Comparisons: every comparison with a NaN is false, and the two zeros are equal.\<close>

fun f_lt :: "f32 \<Rightarrow> f32 \<Rightarrow> bool" where
  "f_lt (Finite s a) (Finite t b) = (sval s a < sval t b)"
| "f_lt (Finite s a) (Infinity t) = (\<not> t)"
| "f_lt (Infinity s) (Finite t b) = s"
| "f_lt (Infinity s) (Infinity t) = (s \<and> \<not> t)"
| "f_lt NaN y = False"
| "f_lt x NaN = False"

fun f_le :: "f32 \<Rightarrow> f32 \<Rightarrow> bool" where
  "f_le (Finite s a) (Finite t b) = (sval s a \<le> sval t b)"
| "f_le (Finite s a) (Infinity t) = (\<not> t)"
| "f_le (Infinity s) (Finite t b) = s"
| "f_le (Infinity s) (Infinity t) = (s \<or> \<not> t)"
| "f_le NaN y = False"
| "f_le x NaN = False"

definition f_gt :: "f32 \<Rightarrow> f32 \<Rightarrow> bool" where
  "f_gt x y = f_lt y x"

definition f_ge :: "f32 \<Rightarrow> f32 \<Rightarrow> bool" where
  "f_ge x y = f_le y x"

fun fabsf :: "f32 \<Rightarrow> f32" where
  "fabsf (Finite s m) = Finite False m"
| "fabsf (Infinity s) = Infinity False"
| "fabsf NaN = NaN"

text \<open>The conversion \<^verbatim>\<open>(float)regval\<close> of a 16-bit register is exact.\<close>

definition f32_of_u16 :: "16 word \<Rightarrow> f32" where
  "f32_of_u16 w = Finite False (of_int (uint w))"

text \<open>
  \<^verbatim>\<open>lroundf\<close> rounds to the nearest integer, halfway cases away from zero, and returns
  a \<^verbatim>\<open>long\<close>, 32 bits on the ESP32. For a NaN, an infinity or a rounded value outside
  the range of \<^verbatim>\<open>long\<close> the C standard leaves the result unspecified: the model takes
  the library's answer there as the parameter \<open>oor\<close>, a function of the argument.
\<close>

fun lroundf :: "(f32 \<Rightarrow> int) \<Rightarrow> f32 \<Rightarrow> int" where
  "lroundf oor (Finite s m) =
     (let n = (if s then - \<lfloor>m + 1 / 2\<rfloor> else \<lfloor>m + 1 / 2\<rfloor>)
      in if - (2 ^ 31) \<le> n \<and> n < 2 ^ 31 then n else oor (Finite s m))"
| "lroundf oor x = oor x"

section \<open>Parameters and the register codec\<close>

record Param =
  name :: string
  unit :: string
  minVal :: f32
  maxVal :: f32
  step :: f32
  reg :: "16 word"
  pvalue :: f32

text \<open>The \<^verbatim>\<open>clamp\<close> template at type \<^verbatim>\<open>float\<close> and at type \<^verbatim>\<open>int\<close>.\<close>

definition clamp_f :: "f32 \<Rightarrow> f32 \<Rightarrow> f32 \<Rightarrow> f32" where
  "clamp_f v lo hi = (if f_lt v lo then lo else (if f_gt v hi then hi else v))"

definition clamp_i :: "int \<Rightarrow> int \<Rightarrow> int \<Rightarrow> int" where
  "clamp_i v lo hi = (if v < lo then lo else (if v > hi then hi else v))"

text \<open>
  \<^verbatim>\<open>toReg\<close>: scale, replace a negative quotient by 0, round with \<^verbatim>\<open>lroundf\<close>, and cast
  the \<^verbatim>\<open>long\<close> to \<^verbatim>\<open>uint16_t\<close>, which keeps the low 16 bits.
\<close>

definition toReg :: "(f32 \<Rightarrow> int) \<Rightarrow> Param \<Rightarrow> 16 word" where
  "toReg oor p =
     (let scaled = f_div (pvalue p) (step p);
          scaled = (if f_lt scaled (Finite False 0) then Finite False 0 else scaled)
      in word_of_int (lroundf oor scaled))"

definition fromReg :: "Param \<Rightarrow> 16 word \<Rightarrow> f32" where
  "fromReg p regval = f_mul (f32_of_u16 regval) (step p)"

definition mkParam :: "string \<Rightarrow> string \<Rightarrow> f32 \<Rightarrow> f32 \<Rightarrow> f32 \<Rightarrow> 16 word \<Rightarrow> f32 \<Rightarrow> Param" where
  "mkParam n u lo hi st r v =
     \<lparr>name = n, unit = u, minVal = lo, maxVal = hi, step = st, reg = r, pvalue = v\<rparr>"

text \<open>The rows of the \<^verbatim>\<open>params[]\<close> table, and the table.\<close>

definition P_pH :: Param where
  "P_pH = mkParam ''pH'' ''pH'' (f32_lit 0) (f32_lit 14) (f32_lit (1 / 100)) 1 (f32_lit 7)"

definition P_TDS :: Param where
  "P_TDS = mkParam ''TDS'' ''ppm'' (f32_lit 0) (f32_lit 1008) (f32_lit 1) 2 (f32_lit 500)"

definition P_TSS :: Param where
  "P_TSS = mkParam ''TSS'' ''NTU'' (f32_lit 0) (f32_lit 1000) (f32_lit 1) 3 (f32_lit 100)"

definition P_COD :: Param where
  "P_COD = mkParam ''COD'' ''mg/L'' (f32_lit 0) (f32_lit 1300) (f32_lit 1) 4 (f32_lit 200)"

definition P_BOD :: Param where
  "P_BOD = mkParam ''BOD'' ''mg/L'' (f32_lit 0) (f32_lit 350) (f32_lit 1) 5 (f32_lit 50)"

definition P_DO :: Param where
  "P_DO = mkParam ''DO'' ''mg/L'' (f32_lit 0) (f32_lit 20) (f32_lit (1 / 100)) 6 (f32_lit 8)"

definition P_NH3N :: Param where
  "P_NH3N = mkParam ''NH3-N'' ''mg/L'' (f32_lit 0) (f32_lit 1000) (f32_lit (1 / 100)) 7 (f32_lit 5)"

definition params0 :: "Param list" where
  "params0 = [P_pH, P_TDS, P_TSS, P_COD, P_BOD, P_DO, P_NH3N]"

definition PARAM_COUNT :: nat where
  "PARAM_COUNT = length params0"

section \<open>Serial configuration and application state\<close>

datatype Screen = HOME | PARAM_LIST | PARAM_EDIT | SERIAL_MENU | SERIAL_EDIT

record SerialCfg =
  baud :: "32 word"
  dataBits :: "8 word"
  parity :: char
  stopBits :: "8 word"

definition scfg0 :: SerialCfg where
  "scfg0 = \<lparr>baud = 9600, dataBits = 8, parity = CHR ''N'', stopBits = 1\<rparr>"

definition BAUDS :: "32 word list" where
  "BAUDS = [1200, 2400, 4800, 9600, 19200, 38400, 57600, 115200]"

definition BAUD_COUNT :: nat where
  "BAUD_COUNT = length BAUDS"

datatype SerialField = BAUD | PARITY | DATABITS | STOPBITS

text \<open>The casts \<^verbatim>\<open>(int)serialField\<close> and \<^verbatim>\<open>(SerialField)fi\<close>, the latter for 0..3.\<close>

fun field_index :: "SerialField \<Rightarrow> int" where
  "field_index BAUD = 0"
| "field_index PARITY = 1"
| "field_index DATABITS = 2"
| "field_index STOPBITS = 3"

definition field_of_index :: "int \<Rightarrow> SerialField" where
  "field_of_index fi = (if fi = 0 then BAUD else if fi = 1 then PARITY
                        else if fi = 2 then DATABITS else STOPBITS)"

text \<open>
  The display, the UART and the Modbus object are collaborators outside
  \<^verbatim>\<open>main.cpp\<close>. The state records what the program asks of them: the screens it
  draws, the serial configurations it applies, and the holding registers.
\<close>

datatype Draw = DrawHome | DrawParamList | DrawParamEdit | DrawSerialMenu | DrawSerialEdit

record State =
  screen :: Screen
  listIndex :: int
  editIndex :: int
  encPrev :: int
  params :: "Param list"
  scfg :: SerialCfg
  serialField :: SerialField
  tSync :: "32 word"
  hregs :: "16 word \<Rightarrow> 16 word"
  hwrites :: "(16 word \<times> 16 word) list"
  drawn :: "Draw list"
  reinits :: "SerialCfg list"

text \<open>
  Modelled from the spec: the register table of the ModbusRTU object \<^verbatim>\<open>mb\<close>, whose
  class is not among the sources. The spec describes it as a flat map from 16-bit
  addresses to raw 16-bit values that the core touches only through get and set by
  address. \<open>Hreg_get\<close> is \<^verbatim>\<open>mb.Hreg(addr)\<close>, \<open>Hreg_set\<close> is \<^verbatim>\<open>mb.Hreg(addr, value)\<close>;
  \<open>hwrites\<close> lists the set calls the program has made, oldest first.
\<close>

definition Hreg_get :: "State \<Rightarrow> 16 word \<Rightarrow> 16 word" where
  "Hreg_get s a = hregs s a"

definition Hreg_set :: "16 word \<Rightarrow> 16 word \<Rightarrow> State \<Rightarrow> State" where
  "Hreg_set a v s = s\<lparr>hregs := (hregs s)(a := v), hwrites := hwrites s @ [(a, v)]\<rparr>"

definition draw :: "Draw \<Rightarrow> State \<Rightarrow> State" where
  "draw d s = s\<lparr>drawn := drawn s @ [d]\<rparr>"

text \<open>
  \<^verbatim>\<open>rs485Reinit\<close> restarts the UART with the current configuration and begins the
  Modbus slave again; per the spec the register contents are left as they are.
\<close>

definition rs485Reinit :: "State \<Rightarrow> State" where
  "rs485Reinit s = s\<lparr>reinits := reinits s @ [scfg s]\<rparr>"

section \<open>Input handlers\<close>

text \<open>
  The handlers read the encoder with \<^verbatim>\<open>enc.read()\<close>; the reading is the argument
  \<open>e\<close>. \<^verbatim>\<open>listIndex\<close>, \<^verbatim>\<open>editIndex\<close> and the encoder positions are C integers
  that stay far from their limits, and are modelled as \<open>int\<close>. \<^verbatim>\<open>params[editIndex]\<close> is
  \<open>params s ! nat (editIndex s)\<close>: \<^verbatim>\<open>editIndex\<close> is only ever a copy of \<^verbatim>\<open>listIndex\<close>,
  which the program keeps within \<open>0..PARAM_COUNT - 1\<close>.
\<close>

definition onSelect :: "(f32 \<Rightarrow> int) \<Rightarrow> int \<Rightarrow> State \<Rightarrow> State" where
  "onSelect oor e s =
     (case screen s of
        HOME \<Rightarrow> draw DrawParamList (s\<lparr>screen := PARAM_LIST, listIndex := 0, encPrev := e\<rparr>)
      | PARAM_LIST \<Rightarrow>
          draw DrawParamEdit (s\<lparr>editIndex := listIndex s, screen := PARAM_EDIT, encPrev := e\<rparr>)
      | PARAM_EDIT \<Rightarrow>
          (let p = params s ! nat (editIndex s)
           in draw DrawParamList ((Hreg_set (reg p) (toReg oor p) s)\<lparr>screen := PARAM_LIST\<rparr>))
      | SERIAL_MENU \<Rightarrow> draw DrawSerialEdit (s\<lparr>screen := SERIAL_EDIT, encPrev := e\<rparr>)
      | SERIAL_EDIT \<Rightarrow> draw DrawSerialMenu ((rs485Reinit s)\<lparr>screen := SERIAL_MENU\<rparr>))"

definition onBack :: "State \<Rightarrow> State" where
  "onBack s =
     (case screen s of
        HOME \<Rightarrow> draw DrawHome s
      | PARAM_LIST \<Rightarrow> draw DrawHome (s\<lparr>screen := HOME\<rparr>)
      | PARAM_EDIT \<Rightarrow> draw DrawParamList (s\<lparr>screen := PARAM_LIST\<rparr>)
      | SERIAL_MENU \<Rightarrow> draw DrawHome (s\<lparr>screen := HOME\<rparr>)
      | SERIAL_EDIT \<Rightarrow> draw DrawSerialMenu (s\<lparr>screen := SERIAL_MENU\<rparr>))"

definition onSelectLong :: "int \<Rightarrow> State \<Rightarrow> State" where
  "onSelectLong e s =
     (if screen s = HOME
      then draw DrawSerialMenu (s\<lparr>screen := SERIAL_MENU, serialField := BAUD, encPrev := e\<rparr>)
      else s)"

section \<open>The control loop\<close>

subsection \<open>Inbound pass: registers into parameters\<close>

definition half :: f32 where
  "half = f32_lit (1 / 2)"

text \<open>
  The body of the first \<^verbatim>\<open>for\<close> loop of \<^verbatim>\<open>loop()\<close> at index \<open>i\<close>; \<open>inbound_redraw\<close>
  is its inner \<^verbatim>\<open>if\<close> chain on the screen.
\<close>

definition inbound_redraw :: "nat \<Rightarrow> State \<Rightarrow> State" where
  "inbound_redraw i s =
     (if screen s = HOME then draw DrawHome s
      else if screen s = PARAM_LIST then draw DrawParamList s
      else if screen s = PARAM_EDIT \<and> editIndex s = int i then draw DrawParamEdit s
      else s)"

definition inbound_at :: "nat \<Rightarrow> State \<Rightarrow> State" where
  "inbound_at i s =
     (let p = params s ! i;
          rv = Hreg_get s (reg p);
          newVal = fromReg p rv
      in if f_gt (fabsf (f_sub newVal (pvalue p))) (f_mul (step p) half)
         then inbound_redraw i
                (s\<lparr>params := (params s)[i := p\<lparr>pvalue := clamp_f newVal (minVal p) (maxVal p)\<rparr>]\<rparr>)
         else s)"

definition inbound_sync :: "State \<Rightarrow> State" where
  "inbound_sync s = fold inbound_at [0..<PARAM_COUNT] s"

subsection \<open>Rotary encoder\<close>

text \<open>
  The search loops of \<^verbatim>\<open>case Screen::SERIAL_EDIT\<close>: the first index of the current
  baud rate in \<^verbatim>\<open>BAUDS\<close> (0 when it is absent), and the index of the current parity
  in \<^verbatim>\<open>order\<close> (3 when it is absent; the source then reads \<^verbatim>\<open>order[3]\<close> before it
  tests \<^verbatim>\<open>ci < 3\<close>, the model tests the index first).
\<close>

function baud_search :: "nat \<Rightarrow> 32 word \<Rightarrow> nat" where
  "baud_search i b =
     (if i < BAUD_COUNT then (if BAUDS ! i = b then i else baud_search (Suc i) b) else 0)"
  by pat_completeness auto
termination
  by (relation "measure (\<lambda>(i, b). BAUD_COUNT - i)") auto

declare baud_search.simps [simp del]

definition parity_order :: "char list" where
  "parity_order = [CHR ''N'', CHR ''E'', CHR ''O'']"

function parity_search :: "nat \<Rightarrow> char \<Rightarrow> nat" where
  "parity_search ci c =
     (if ci < 3 \<and> parity_order ! ci \<noteq> c then parity_search (Suc ci) c else ci)"
  by pat_completeness auto
termination
  by (relation "measure (\<lambda>(ci, c). 3 - ci)") auto

declare parity_search.simps [simp del]

definition serial_edit :: "int \<Rightarrow> SerialField \<Rightarrow> SerialCfg \<Rightarrow> SerialCfg" where
  "serial_edit diff f c =
     (case f of
        BAUD \<Rightarrow>
          (let idx = int (baud_search 0 (baud c));
               idx = clamp_i (idx + (if diff > 0 then 1 else - 1)) 0 (int BAUD_COUNT - 1)
           in c\<lparr>baud := BAUDS ! nat idx\<rparr>)
      | PARITY \<Rightarrow>
          (let ci = int (parity_search 0 (parity c));
               ci = (ci + (if diff > 0 then 1 else - 1) + 3) mod 3
           in c\<lparr>parity := parity_order ! nat ci\<rparr>)
      | DATABITS \<Rightarrow> c\<lparr>dataBits := (if diff > 0 then 8 else 7)\<rparr>
      | STOPBITS \<Rightarrow> c\<lparr>stopBits := (if diff > 0 then 2 else 1)\<rparr>)"

text \<open>The \<^verbatim>\<open>switch\<close> on the screen, entered with a nonzero \<open>diff\<close>.\<close>

definition on_rotate :: "int \<Rightarrow> State \<Rightarrow> State" where
  "on_rotate diff s =
     (case screen s of
        HOME \<Rightarrow> s
      | PARAM_LIST \<Rightarrow>
          (let ni = listIndex s + (if diff > 0 then 1 else - 1);
               ni = clamp_i ni 0 (int PARAM_COUNT - 1)
           in if ni \<noteq> listIndex s then draw DrawParamList (s\<lparr>listIndex := ni\<rparr>) else s)
      | PARAM_EDIT \<Rightarrow>
          (let i = nat (editIndex s);
               p = params s ! i;
               delta = (if diff > 0 then step p else f_neg (step p));
               nv = clamp_f (f_add (pvalue p) delta) (minVal p) (maxVal p)
           in if f_ge (fabsf (f_sub nv (pvalue p))) (f_mul (step p) half)
              then draw DrawParamEdit (s\<lparr>params := (params s)[i := p\<lparr>pvalue := nv\<rparr>]\<rparr>)
              else s)
      | SERIAL_MENU \<Rightarrow>
          (let fi = field_index (serialField s) + (if diff > 0 then 1 else - 1);
               fi = clamp_i fi 0 3
           in if fi \<noteq> field_index (serialField s)
              then draw DrawSerialMenu (s\<lparr>serialField := field_of_index fi\<rparr>)
              else s)
      | SERIAL_EDIT \<Rightarrow>
          draw DrawSerialEdit (s\<lparr>scfg := serial_edit diff (serialField s) (scfg s)\<rparr>))"

definition encoder_step :: "int \<Rightarrow> State \<Rightarrow> State" where
  "encoder_step now s =
     (if now \<noteq> encPrev s then on_rotate (now - encPrev s) (s\<lparr>encPrev := now\<rparr>) else s)"

subsection \<open>Outbound pass: parameters into registers\<close>

definition outbound_at :: "(f32 \<Rightarrow> int) \<Rightarrow> nat \<Rightarrow> State \<Rightarrow> State" where
  "outbound_at oor i s =
     (let cur = Hreg_get s (reg (params s ! i)); need = toReg oor (params s ! i)
      in if cur \<noteq> need then Hreg_set (reg (params s ! i)) need s else s)"

definition outbound_pass :: "(f32 \<Rightarrow> int) \<Rightarrow> State \<Rightarrow> State" where
  "outbound_pass oor s = fold (outbound_at oor) [0..<PARAM_COUNT] s"

text \<open>
  The throttle: \<^verbatim>\<open>millis()\<close> and \<^verbatim>\<open>tSync\<close> are \<^verbatim>\<open>uint32_t\<close>, the subtraction wraps.
  \<open>ms1\<close> and \<open>ms2\<close> are the two readings of \<^verbatim>\<open>millis()\<close>.
\<close>

definition outbound_sync :: "(f32 \<Rightarrow> int) \<Rightarrow> 32 word \<Rightarrow> 32 word \<Rightarrow> State \<Rightarrow> State" where
  "outbound_sync oor ms1 ms2 s =
     (if ms1 - tSync s > 300 then outbound_pass oor (s\<lparr>tSync := ms2\<rparr>) else s)"

subsection \<open>One pass of \<^verbatim>\<open>loop()\<close>, and \<^verbatim>\<open>setup()\<close>\<close>

datatype Event = SelectPressed | SelectLongPressed | BackPressed

fun handle :: "(f32 \<Rightarrow> int) \<Rightarrow> int \<Rightarrow> Event \<Rightarrow> State \<Rightarrow> State" where
  "handle oor e SelectPressed s = onSelect oor e s"
| "handle oor e SelectLongPressed s = onSelectLong e s"
| "handle oor e BackPressed s = onBack s"

text \<open>
  What one pass of \<^verbatim>\<open>loop()\<close> takes from outside: the register writes of the remote
  peer that \<^verbatim>\<open>mb.task()\<close> carries out, the handler calls that \<^verbatim>\<open>btnSelect.loop()\<close> and
  \<^verbatim>\<open>btnBack.loop()\<close> make, the encoder position the handlers read and the one the loop
  reads, and the two clock readings.
\<close>

record TickIn =
  remote :: "(16 word \<times> 16 word) list"
  events :: "Event list"
  encBtn :: int
  encNow :: int
  millis1 :: "32 word"
  millis2 :: "32 word"

definition mb_task :: "(16 word \<times> 16 word) list \<Rightarrow> State \<Rightarrow> State" where
  "mb_task ws s = s\<lparr>hregs := fold (\<lambda>(a, v) h. h(a := v)) ws (hregs s)\<rparr>"

definition loop :: "(f32 \<Rightarrow> int) \<Rightarrow> TickIn \<Rightarrow> State \<Rightarrow> State" where
  "loop oor inp s =
     (let s = mb_task (remote inp) s;
          s = fold (handle oor (encBtn inp)) (events inp) s;
          s = inbound_sync s;
          s = encoder_step (encNow inp) s
      in outbound_sync oor (millis1 inp) (millis2 inp) s)"

definition setup_state :: "(f32 \<Rightarrow> int) \<Rightarrow> int \<Rightarrow> State" where
  "setup_state oor e =
     \<lparr>screen = HOME, listIndex = 0, editIndex = 0, encPrev = e, params = params0,
      scfg = scfg0, serialField = BAUD, tSync = 0,
      hregs = fold (\<lambda>p h. h(reg p := toReg oor p)) params0 (\<lambda>a. 0),
      hwrites = [], drawn = [DrawHome], reinits = [scfg0]\<rparr>"

subsection \<open>What the two passes do to one parameter\<close>

text \<open>
  \<open>inbound_result p rv\<close> is the parameter record that one iteration of the inbound
  loop leaves in place of \<open>p\<close> when \<open>p\<close>'s register holds \<open>rv\<close>; \<open>edit_result diff p\<close>
  is what \<^verbatim>\<open>case Screen::PARAM_EDIT\<close> leaves in place of the edited parameter. They
  are the bodies of \<open>inbound_at\<close> and of \<open>on_rotate\<close>, read off for the parameter alone.
\<close>

definition inbound_result :: "Param \<Rightarrow> 16 word \<Rightarrow> Param" where
  "inbound_result p rv =
     (if f_gt (fabsf (f_sub (fromReg p rv) (pvalue p))) (f_mul (step p) half)
      then p\<lparr>pvalue := clamp_f (fromReg p rv) (minVal p) (maxVal p)\<rparr>
      else p)"

definition edit_result :: "int \<Rightarrow> Param \<Rightarrow> Param" where
  "edit_result diff p =
     (let nv = clamp_f (f_add (pvalue p) (if diff > 0 then step p else f_neg (step p)))
                 (minVal p) (maxVal p)
      in if f_ge (fabsf (f_sub nv (pvalue p))) (f_mul (step p) half)
         then p\<lparr>pvalue := nv\<rparr>
         else p)"

definition in_bounds :: "Param \<Rightarrow> bool" where
  "in_bounds p = (f_le (minVal p) (pvalue p) \<and> f_le (pvalue p) (maxVal p))"

text \<open>The set calls of one outbound pass over the parameters \<open>ps\<close>, from the table \<open>h\<close>.\<close>

definition out_writes ::
  "(f32 \<Rightarrow> int) \<Rightarrow> (16 word \<Rightarrow> 16 word) \<Rightarrow> Param list \<Rightarrow> (16 word \<times> 16 word) list" where
  "out_writes oor h ps =
     map (\<lambda>p. (reg p, toReg oor p)) (filter (\<lambda>p. h (reg p) \<noteq> toReg oor p) ps)"


subsection \<open>Example states and parameters\<close>

text \<open>
  \<open>st_boot\<close> is the state after \<^verbatim>\<open>setup()\<close> with the encoder at 0; \<open>st_edit_tds\<close> has
  the TDS parameter (index 1, register 2, step 1) open in the edit screen. In
  \<open>st_remote_600\<close> the remote peer has written 600 to the TDS register, in
  \<open>st_edit_ph_2000\<close> it has written 2000 to the pH register while pH (index 0,
  register 1, step 0.01, at most 14) is being edited; \<open>st_tds_edited\<close> is
  \<open>st_edit_tds\<close> after one detent clockwise.
  \<open>nh3n_max\<close> is the NH3-N parameter at its upper bound 1000.0; \<open>with_value\<close> and
  \<open>midpoint\<close> give the test values of the round trip.
\<close>

definition st_boot :: State where
  "st_boot = setup_state (\<lambda>x. 0) 0"

definition st_edit_tds :: State where
  "st_edit_tds = st_boot\<lparr>screen := PARAM_EDIT, editIndex := 1\<rparr>"

definition st_serial :: State where
  "st_serial = st_boot\<lparr>screen := SERIAL_EDIT\<rparr>"

definition st_remote_600 :: State where
  "st_remote_600 = mb_task [(2, 600)] st_boot"


definition st_tds_edited :: State where
  "st_tds_edited = encoder_step 1 st_edit_tds"

definition with_value :: "Param \<Rightarrow> f32 \<Rightarrow> Param" where
  "with_value p v = p\<lparr>pvalue := v\<rparr>"

definition midpoint :: "Param \<Rightarrow> f32" where
  "midpoint p = f_div (f_add (minVal p) (maxVal p)) (f32_lit 2)"

definition nh3n_max :: Param where
  "nh3n_max = with_value P_NH3N (maxVal P_NH3N)"

definition roundtrip_ok :: "(f32 \<Rightarrow> int) \<Rightarrow> Param \<Rightarrow> bool" where
  "roundtrip_ok oor p =
     f_lt (fabsf (f_sub (fromReg p (toReg oor p)) (pvalue p))) (step p)"

definition quiet_tick :: "(16 word \<times> 16 word) list \<Rightarrow> 32 word \<Rightarrow> TickIn" where
  "quiet_tick ws ms =
     \<lparr>remote = ws, events = [], encBtn = 0, encNow = 0, millis1 = ms, millis2 = ms\<rparr>"

text \<open>
  Runs of the loop from \<^verbatim>\<open>setup()\<close>; \<open>trace\<close> lists the states a run goes through.
  \<open>nh3n_run\<close> has seven passes: a Select press and six detents move the list cursor
  to NH3-N (index 6, register 7); in the seventh pass the remote peer has written 65535
  to register 7, Select opens the edit screen, the encoder moves one detent clockwise,
  and 1000 ms have passed, so that the outbound pass is due. \<open>ph_run\<close> has ten passes:
  two Select presses open the edit screen of pH (index 0, register 1) while the remote
  peer writes 7 to register 1, then the encoder moves eight detents counterclockwise,
  one per pass, a second apart. \<open>save_run\<close> has four passes: Select, one detent
  clockwise and Select open the edit screen of TDS, which gives the state
  \<open>st_tds_open\<close>; in the fourth pass the remote peer has written 600 to register 2 and
  Select is pressed, with the outbound pass due. \<open>nh3n_view\<close>, \<open>ph_view\<close>,
  \<open>tds_view\<close> and \<open>save_view\<close> are what the evaluation of the runs looks at.
\<close>

definition tick_in ::
  "(16 word \<times> 16 word) list \<Rightarrow> Event list \<Rightarrow> int \<Rightarrow> int \<Rightarrow> 32 word \<Rightarrow> TickIn" where
  "tick_in ws evs eb en ms =
     \<lparr>remote = ws, events = evs, encBtn = eb, encNow = en, millis1 = ms, millis2 = ms\<rparr>"

definition nh3n_run :: "TickIn list" where
  "nh3n_run =
     [tick_in [] [SelectPressed] 0 1 0, tick_in [] [] 1 2 0, tick_in [] [] 2 3 0,
      tick_in [] [] 3 4 0, tick_in [] [] 4 5 0, tick_in [] [] 5 6 0,
      tick_in [(7, 65535)] [SelectPressed] 6 7 1000]"

definition nh3n_view ::
  "State \<Rightarrow> Screen \<times> int \<times> f32 \<times> 16 word \<times> (16 word \<times> 16 word) list" where
  "nh3n_view s = (screen s, editIndex s, pvalue (params s ! 6), hregs s 7, hwrites s)"

fun trace :: "(f32 \<Rightarrow> int) \<Rightarrow> State \<Rightarrow> TickIn list \<Rightarrow> State list" where
  "trace oor s [] = [s]"
| "trace oor s (x # xs) = s # trace oor (loop oor x s) xs"



definition tds_view :: "State \<Rightarrow> f32 \<times> 16 word" where
  "tds_view s = (pvalue (params s ! 1), hregs s 2)"




definition nh3n_wrapped :: Param where
  "nh3n_wrapped = with_value P_NH3N (Finite False (5368709 / 8192))"

subsection \<open>The bounds invariant\<close>

text \<open>
  \<open>params_ok s\<close>: the table has its \<open>PARAM_COUNT\<close> rows, and every row has
  \<open>minVal \<le> maxVal\<close> and a value within these bounds.
\<close>

definition params_ok :: "State \<Rightarrow> bool" where
  "params_ok s =
     (length (params s) = PARAM_COUNT \<and>
      list_all (\<lambda>p. f_le (minVal p) (maxVal p) \<and> in_bounds p) (params s))"

subsection \<open>The grid of the values\<close>

text \<open>
  \<open>is_int x\<close>: the rational \<open>x\<close> is an integer. \<open>on_grid st m\<close>: the magnitude \<open>m\<close> is a
  multiple of the grid of the step \<open>st\<close>, which is 1 for the step 1.0 and \<open>2^-29\<close>
  otherwise. \<open>row_ok p\<close>: the row has the lower bound 0.0, a non-negative integer as
  upper bound and the step 1.0 or \<^verbatim>\<open>0.01f\<close>, and its value is finite, within the bounds
  and on the grid of the step. \<open>rows_ok s\<close>: the table has its \<open>PARAM_COUNT\<close> rows, all
  of this kind.
\<close>

definition is_int :: "rat \<Rightarrow> bool" where
  "is_int x = (of_int \<lfloor>x\<rfloor> = x)"

definition on_grid :: "f32 \<Rightarrow> rat \<Rightarrow> bool" where
  "on_grid st m = is_int (if st = Finite False 1 then m else m * 536870912)"

definition row_ok :: "Param \<Rightarrow> bool" where
  "row_ok p =
     (minVal p = Finite False 0 \<and>
      (step p = Finite False 1 \<or> step p = Finite False (5368709 / 536870912)) \<and>
      (case maxVal p of Finite sg h \<Rightarrow> \<not> sg \<and> 0 \<le> h \<and> is_int h | _ \<Rightarrow> False) \<and>
      (case pvalue p of
         Finite sg v \<Rightarrow> 0 \<le> v \<and> (sg \<longrightarrow> v = 0) \<and> on_grid (step p) v
       | _ \<Rightarrow> False) \<and>
      in_bounds p)"

definition rows_ok :: "State \<Rightarrow> bool" where
  "rows_ok s = (length (params s) = PARAM_COUNT \<and> list_all row_ok (params s))"

section \<open>The tables, evaluated\<close>

text \<open>
  The literals of the table as binary32 values: \<^verbatim>\<open>0.01f\<close> is
  \<open>5368709 / 2^29\<close>, slightly below 1/100; the other literals are exact.
\<close>

lemma f32_lit_values:
  "f32_lit 0 = Finite False 0" "f32_lit 1 = Finite False 1" "f32_lit 2 = Finite False 2"
  "f32_lit 5 = Finite False 5" "f32_lit 7 = Finite False 7" "f32_lit 8 = Finite False 8"
  "f32_lit 14 = Finite False 14" "f32_lit 20 = Finite False 20" "f32_lit 50 = Finite False 50"
  "f32_lit 100 = Finite False 100" "f32_lit 200 = Finite False 200"
  "f32_lit 350 = Finite False 350" "f32_lit 500 = Finite False 500"
  "f32_lit 1000 = Finite False 1000" "f32_lit 1008 = Finite False 1008"
  "f32_lit 1300 = Finite False 1300"
  "f32_lit (1 / 100) = Finite False (5368709 / 536870912)"
  "f32_lit (1 / 2) = Finite False (1 / 2)"
  by code_simp+

lemma rows [code]:
  "P_pH = \<lparr>name = ''pH'', unit = ''pH'', minVal = Finite False 0, maxVal = Finite False 14,
      step = Finite False (5368709 / 536870912), reg = 1, pvalue = Finite False 7\<rparr>"
  "P_TDS = \<lparr>name = ''TDS'', unit = ''ppm'', minVal = Finite False 0, maxVal = Finite False 1008,
      step = Finite False 1, reg = 2, pvalue = Finite False 500\<rparr>"
  "P_TSS = \<lparr>name = ''TSS'', unit = ''NTU'', minVal = Finite False 0, maxVal = Finite False 1000,
      step = Finite False 1, reg = 3, pvalue = Finite False 100\<rparr>"
  "P_COD = \<lparr>name = ''COD'', unit = ''mg/L'', minVal = Finite False 0, maxVal = Finite False 1300,
      step = Finite False 1, reg = 4, pvalue = Finite False 200\<rparr>"
  "P_BOD = \<lparr>name = ''BOD'', unit = ''mg/L'', minVal = Finite False 0, maxVal = Finite False 350,
      step = Finite False 1, reg = 5, pvalue = Finite False 50\<rparr>"
  "P_DO = \<lparr>name = ''DO'', unit = ''mg/L'', minVal = Finite False 0, maxVal = Finite False 20,
      step = Finite False (5368709 / 536870912), reg = 6, pvalue = Finite False 8\<rparr>"
  "P_NH3N = \<lparr>name = ''NH3-N'', unit = ''mg/L'', minVal = Finite False 0,
      maxVal = Finite False 1000, step = Finite False (5368709 / 536870912), reg = 7,
      pvalue = Finite False 5\<rparr>"
  by (simp_all add: P_pH_def P_TDS_def P_TSS_def P_COD_def P_BOD_def P_DO_def P_NH3N_def
      mkParam_def f32_lit_values)

lemma half_value [code]: "half = Finite False (1 / 2)"
  by (simp add: half_def f32_lit_values)

lemma toReg_rows:
  "toReg oor P_pH = 700" "toReg oor P_TDS = 500" "toReg oor P_TSS = 100"
  "toReg oor P_COD = 200" "toReg oor P_BOD = 50" "toReg oor P_DO = 800"
  "toReg oor P_NH3N = 500"
  by code_simp+

lemma reg_rows:
  "reg P_pH = 1" "reg P_TDS = 2" "reg P_TSS = 3" "reg P_COD = 4" "reg P_BOD = 5"
  "reg P_DO = 6" "reg P_NH3N = 7"
  by (simp_all add: rows)

lemma st_boot_eval [code]:
  "st_boot =
     \<lparr>screen = HOME, listIndex = 0, editIndex = 0, encPrev = 0, params = params0,
      scfg = scfg0, serialField = BAUD, tSync = 0,
      hregs = (\<lambda>a. 0)(1 := 700, 2 := 500, 3 := 100, 4 := 200, 5 := 50, 6 := 800, 7 := 500),
      hwrites = [], drawn = [DrawHome], reinits = [scfg0]\<rparr>"
  by (simp add: st_boot_def setup_state_def params0_def toReg_rows reg_rows)

section \<open>Comparisons and clamping\<close>

lemma f_lt_NaN [simp]: "f_lt x NaN = False"
  by (cases x) simp_all

lemma f_le_NaN [simp]: "f_le x NaN = False"
  by (cases x) simp_all

lemma f_add_NaN [simp]: "f_add x NaN = NaN"
  by (cases x) simp_all

lemma f_sub_NaN_left [simp]: "f_sub NaN y = NaN"
  by (simp add: f_sub_def)

lemma clamp_f_NaN [simp]: "clamp_f NaN lo hi = NaN"
  by (simp add: clamp_f_def f_gt_def)

lemma clamp_f_within:
  "f_le lo hi \<Longrightarrow> v \<noteq> NaN \<Longrightarrow> f_le lo (clamp_f v lo hi) \<and> f_le (clamp_f v lo hi) hi"
  by (cases v; cases lo; cases hi) (auto simp: clamp_f_def f_gt_def)

lemma clamp_f_above:
  "f_le lo hi \<Longrightarrow> f_gt v hi \<Longrightarrow> clamp_f v lo hi = hi"
  by (cases v; cases lo; cases hi) (auto simp: clamp_f_def f_gt_def split: if_splits)

lemma clamp_f_below: "f_lt v lo \<Longrightarrow> clamp_f v lo hi = lo"
  by (simp add: clamp_f_def)

lemma accepted_not_NaN:
  "f_gt (fabsf (f_sub x v)) t \<or> f_ge (fabsf (f_sub x v)) t \<Longrightarrow> x \<noteq> NaN"
  by (auto simp: f_gt_def f_ge_def)

section \<open>One parameter under the two passes\<close>

lemma inbound_result_bounds:
  assumes "f_le (minVal p) (maxVal p)"
  shows "pvalue (inbound_result p rv) = pvalue p \<or>
      in_bounds (inbound_result p rv) \<and>
      (f_gt (fromReg p rv) (maxVal p) \<longrightarrow> pvalue (inbound_result p rv) = maxVal p) \<and>
      (f_lt (fromReg p rv) (minVal p) \<longrightarrow> pvalue (inbound_result p rv) = minVal p)"
proof (cases "f_gt (fabsf (f_sub (fromReg p rv) (pvalue p))) (f_mul (step p) half)")
  case False
  then show ?thesis by (simp add: inbound_result_def)
next
  case True
  then have "fromReg p rv \<noteq> NaN"
    using accepted_not_NaN by blast
  then show ?thesis
    using True assms clamp_f_within [of "minVal p" "maxVal p" "fromReg p rv"]
      clamp_f_above [of "minVal p" "maxVal p" "fromReg p rv"]
    by (simp add: inbound_result_def in_bounds_def clamp_f_below)
qed

lemma inbound_result_fields:
  "minVal (inbound_result p rv) = minVal p \<and> maxVal (inbound_result p rv) = maxVal p \<and>
   step (inbound_result p rv) = step p \<and> reg (inbound_result p rv) = reg p"
  by (simp add: inbound_result_def)

lemma edit_result_bounds:
  assumes "f_le (minVal p) (maxVal p)"
  shows "pvalue (edit_result d p) = pvalue p \<or>
      in_bounds (edit_result d p) \<and>
      (f_gt (f_add (pvalue p) (if d > 0 then step p else f_neg (step p))) (maxVal p) \<longrightarrow>
         pvalue (edit_result d p) = maxVal p) \<and>
      (f_lt (f_add (pvalue p) (if d > 0 then step p else f_neg (step p))) (minVal p) \<longrightarrow>
         pvalue (edit_result d p) = minVal p)"
proof -
  define w where "w = f_add (pvalue p) (if d > 0 then step p else f_neg (step p))"
  define nv where "nv = clamp_f w (minVal p) (maxVal p)"
  show ?thesis
  proof (cases "f_ge (fabsf (f_sub nv (pvalue p))) (f_mul (step p) half)")
    case False
    then show ?thesis by (simp add: edit_result_def Let_def nv_def w_def)
  next
    case True
    then have "nv \<noteq> NaN"
      using accepted_not_NaN by blast
    then have "w \<noteq> NaN"
      by (auto simp: nv_def)
    then have within: "f_le (minVal p) nv \<and> f_le nv (maxVal p)"
      unfolding nv_def using assms by (rule clamp_f_within [rotated])
    have above: "f_gt w (maxVal p) \<longrightarrow> nv = maxVal p"
      unfolding nv_def using assms by (simp add: clamp_f_above)
    have below: "f_lt w (minVal p) \<longrightarrow> nv = minVal p"
      unfolding nv_def by (simp add: clamp_f_below)
    have er: "edit_result d p = p\<lparr>pvalue := nv\<rparr>"
      using True by (simp add: edit_result_def Let_def nv_def w_def)
    show ?thesis
      unfolding er w_def [symmetric] using within above below
      by (simp add: in_bounds_def)
  qed
qed

lemma edit_result_fields:
  "minVal (edit_result d p) = minVal p \<and> maxVal (edit_result d p) = maxVal p \<and>
   step (edit_result d p) = step p \<and> reg (edit_result d p) = reg p"
  by (simp add: edit_result_def Let_def)



section \<open>The inbound pass as a map over the parameters\<close>

lemma inbound_at_eq:
  "inbound_at i s =
     s\<lparr>params := (params s)[i := inbound_result (params s ! i) (hregs s (reg (params s ! i)))],
       drawn := drawn (inbound_at i s)\<rparr>"
  by (simp add: inbound_at_def inbound_result_def inbound_redraw_def draw_def Hreg_get_def Let_def)

lemma inbound_fold:
  "n \<le> length (params s) \<Longrightarrow>
     fold inbound_at [0..<n] s =
       s\<lparr>params := map (\<lambda>p. inbound_result p (hregs s (reg p))) (take n (params s)) @
                     drop n (params s),
         drawn := drawn (fold inbound_at [0..<n] s)\<rparr>"
proof (induction n)
  case 0
  show ?case by simp
next
  case (Suc n)
  define t where "t = fold inbound_at [0..<n] s"
  define f where "f = (\<lambda>p. inbound_result p (hregs s (reg p)))"
  have n: "n < length (params s)" using Suc.prems by simp
  have ih: "t = s\<lparr>params := map f (take n (params s)) @ drop n (params s), drawn := drawn t\<rparr>"
    using Suc.IH n by (simp add: t_def f_def)
  have pt: "params t = map f (take n (params s)) @ drop n (params s)"
    and ht: "hregs t = hregs s"
    by (subst ih, simp)+
  have nth: "params t ! n = params s ! n"
    using n by (simp add: pt nth_append)
  have upd: "(params t)[n := f (params s ! n)] =
      map f (take (Suc n) (params s)) @ drop (Suc n) (params s)"
    using n
    by (simp add: pt list_update_append take_Suc_conv_app_nth
        Cons_nth_drop_Suc [symmetric])
  have step: "fold inbound_at [0..<Suc n] s = inbound_at n t"
    by (simp add: t_def)
  have "inbound_at n t =
      t\<lparr>params := (params t)[n := f (params s ! n)], drawn := drawn (inbound_at n t)\<rparr>"
    by (subst inbound_at_eq) (simp add: nth ht f_def)
  also have "\<dots> = s\<lparr>params := map f (take (Suc n) (params s)) @ drop (Suc n) (params s),
      drawn := drawn (inbound_at n t)\<rparr>"
    by (subst ih) (simp add: upd)
  finally show ?case
    unfolding step f_def by simp
qed

lemma inbound_sync_eq:
  "length (params s) = PARAM_COUNT \<Longrightarrow>
     inbound_sync s =
       s\<lparr>params := map (\<lambda>p. inbound_result p (hregs s (reg p))) (params s),
         drawn := drawn (inbound_sync s)\<rparr>"
  using inbound_fold [of PARAM_COUNT s] by (simp add: inbound_sync_def)

lemma inbound_sync_nth:
  assumes "length (params s) = PARAM_COUNT" and "i < PARAM_COUNT"
  shows "params (inbound_sync s) ! i = inbound_result (params s ! i) (hregs s (reg (params s ! i)))"
    and "hregs (inbound_sync s) = hregs s"
    and "length (params (inbound_sync s)) = PARAM_COUNT"
  using assms by (subst inbound_sync_eq, simp, simp)+

section \<open>The encoder on the edit screen\<close>

lemma encoder_step_params:
  "params (encoder_step now s) =
     (if now \<noteq> encPrev s \<and> screen s = PARAM_EDIT
      then (params s)[nat (editIndex s) :=
             edit_result (now - encPrev s) (params s ! nat (editIndex s))]
      else params s)"
  by (auto simp add: encoder_step_def on_rotate_def edit_result_def draw_def Let_def
      split: Screen.split)

section \<open>The outbound pass\<close>

lemma outbound_at_frame:
  "params (outbound_at oor i s) = params s \<and> screen (outbound_at oor i s) = screen s \<and>
   tSync (outbound_at oor i s) = tSync s \<and> drawn (outbound_at oor i s) = drawn s"
  by (simp add: outbound_at_def Hreg_set_def Hreg_get_def Let_def)

lemma outbound_fold_params: "params (fold (outbound_at oor) xs s) = params s"
  by (induction xs arbitrary: s) (simp_all add: outbound_at_frame)

lemma outbound_sync_params: "params (outbound_sync oor ms1 ms2 s) = params s"
  by (simp add: outbound_sync_def outbound_pass_def outbound_fold_params)

lemma distinct_reg_take:
  assumes "distinct (map reg ps)" and "n < length ps"
  shows "reg (ps ! n) \<notin> reg ` set (take n ps)"
proof
  assume "reg (ps ! n) \<in> reg ` set (take n ps)"
  then obtain q where q: "q \<in> set (take n ps)" and e: "reg (ps ! n) = reg q"
    by auto
  from q obtain i where i: "i < n" and qi: "q = ps ! i"
    using assms(2) by (auto simp: in_set_conv_nth)
  have il: "i < length (map reg ps)" and nl: "n < length (map reg ps)"
    using i assms(2) by simp_all
  have "map reg ps ! i = map reg ps ! n"
    using e qi il nl by simp
  then have "i = n"
    using nth_eq_iff_index_eq [OF assms(1) il nl] by simp
  with i show False by simp
qed

lemma outbound_fold:
  assumes d: "distinct (map reg (params s))"
  shows "n \<le> length (params s) \<Longrightarrow>
     params (fold (outbound_at oor) [0..<n] s) = params s \<and>
     hwrites (fold (outbound_at oor) [0..<n] s) =
       hwrites s @ out_writes oor (hregs s) (take n (params s)) \<and>
     (\<forall>i<n. hregs (fold (outbound_at oor) [0..<n] s) (reg (params s ! i)) =
        toReg oor (params s ! i)) \<and>
     (\<forall>a. a \<notin> reg ` set (take n (params s)) \<longrightarrow>
        hregs (fold (outbound_at oor) [0..<n] s) a = hregs s a)"
proof (induction n)
  case 0
  show ?case by (simp add: out_writes_def)
next
  case (Suc n)
  define t where "t = fold (outbound_at oor) [0..<n] s"
  define p where "p = params s ! n"
  have n: "n < length (params s)" using Suc.prems by simp
  have ih: "params t = params s"
    "hwrites t = hwrites s @ out_writes oor (hregs s) (take n (params s))"
    "\<forall>i<n. hregs t (reg (params s ! i)) = toReg oor (params s ! i)"
    "\<forall>a. a \<notin> reg ` set (take n (params s)) \<longrightarrow> hregs t a = hregs s a"
    using Suc.IH n by (simp_all add: t_def)
  have fresh: "reg p \<notin> reg ` set (take n (params s))"
    unfolding p_def by (rule distinct_reg_take [OF d n])
  have cur: "hregs t (reg p) = hregs s (reg p)"
    using ih(4) fresh by simp
  have step: "fold (outbound_at oor) [0..<Suc n] s = outbound_at oor n t"
    by (simp add: t_def)
  have tk: "take (Suc n) (params s) = take n (params s) @ [p]"
    using n by (simp add: take_Suc_conv_app_nth p_def)
  have other: "\<forall>i<n. reg (params s ! i) \<noteq> reg p"
  proof (intro allI impI)
    fix i assume "i < n"
    then have "params s ! i \<in> set (take n (params s))"
      using n by (auto simp: in_set_conv_nth)
    then show "reg (params s ! i) \<noteq> reg p"
      using fresh by (metis image_eqI)
  qed
  show ?case
  proof (cases "hregs s (reg p) = toReg oor p")
    case True
    then have same: "outbound_at oor n t = t"
      by (simp add: outbound_at_def Hreg_get_def ih(1) cur p_def [symmetric])
    have "\<forall>i<Suc n. hregs t (reg (params s ! i)) = toReg oor (params s ! i)"
      using ih(3) True cur by (auto simp: less_Suc_eq p_def)
    then show ?thesis
      unfolding step same using ih True by (simp add: tk out_writes_def)
  next
    case False
    then have upd: "outbound_at oor n t = Hreg_set (reg p) (toReg oor p) t"
      by (simp add: outbound_at_def Hreg_get_def ih(1) cur p_def [symmetric])
    have "\<forall>i<Suc n. hregs (Hreg_set (reg p) (toReg oor p) t) (reg (params s ! i)) =
        toReg oor (params s ! i)"
      using ih(3) other by (auto simp: less_Suc_eq p_def Hreg_set_def)
    then show ?thesis
      unfolding step upd using ih False by (simp add: tk out_writes_def Hreg_set_def)
  qed
qed

lemma outbound_pass_eq:
  assumes "length (params s) = PARAM_COUNT" and "distinct (map reg (params s))"
  shows "params (outbound_pass oor s) = params s"
    and "hwrites (outbound_pass oor s) = hwrites s @ out_writes oor (hregs s) (params s)"
    and "\<forall>i<PARAM_COUNT. hregs (outbound_pass oor s) (reg (params s ! i)) = toReg oor (params s ! i)"
    and "\<forall>a. a \<notin> reg ` set (params s) \<longrightarrow> hregs (outbound_pass oor s) a = hregs s a"
  using outbound_fold [OF assms(2), of PARAM_COUNT oor] assms(1)
  by (simp_all add: outbound_pass_def)

section \<open>Frames of the other steps\<close>

lemma PARAM_COUNT_7: "PARAM_COUNT = 7"
  by (simp add: PARAM_COUNT_def params0_def)

lemma on_rotate_frame:
  "hregs (on_rotate d s) = hregs s \<and> hwrites (on_rotate d s) = hwrites s \<and>
   screen (on_rotate d s) = screen s"
  by (simp add: on_rotate_def draw_def Let_def split: Screen.split)

lemma encoder_step_frame:
  "hregs (encoder_step now s) = hregs s \<and> hwrites (encoder_step now s) = hwrites s \<and>
   screen (encoder_step now s) = screen s"
  by (simp add: encoder_step_def on_rotate_frame)

lemma handle_frame:
  "params (handle oor e ev s) = params s \<and> tSync (handle oor e ev s) = tSync s"
  by (cases ev)
    (simp_all add: onSelect_def onBack_def onSelectLong_def draw_def Hreg_set_def
      rs485Reinit_def Let_def split: Screen.split)

lemma handle_fold_frame:
  "params (fold (handle oor e) evs s) = params s \<and> tSync (fold (handle oor e) evs s) = tSync s"
  by (induction evs arbitrary: s) (simp_all add: handle_frame)

lemma mb_task_frame: "params (mb_task ws s) = params s \<and> tSync (mb_task ws s) = tSync s"
  by (simp add: mb_task_def)

lemma encoder_step_tSync: "tSync (encoder_step now s) = tSync s"
  by (simp add: encoder_step_def on_rotate_def draw_def Let_def split: Screen.split)

lemma inbound_sync_tSync:
  "length (params s) = PARAM_COUNT \<Longrightarrow> tSync (inbound_sync s) = tSync s"
  by (subst inbound_sync_eq) simp_all

lemma map_reg_inbound:
  "map reg (map (\<lambda>p. inbound_result p (h (reg p))) ps) = map reg ps"
  by (simp add: inbound_result_fields)

lemma map_reg_update:
  "reg y = reg (ps ! k) \<Longrightarrow> map reg (ps[k := y]) = map reg ps"
  by (metis list_update_id map_update)

lemma encoder_step_regs: "map reg (params (encoder_step now s)) = map reg (params s)"
  by (simp add: encoder_step_params map_reg_update edit_result_fields)




section \<open>The bounds hold in every reachable state\<close>

lemma inbound_result_ok:
  "f_le (minVal p) (maxVal p) \<and> in_bounds p \<Longrightarrow>
     f_le (minVal (inbound_result p rv)) (maxVal (inbound_result p rv)) \<and>
     in_bounds (inbound_result p rv)"
  using inbound_result_bounds [of p rv] inbound_result_fields [of p rv]
  by (auto simp: in_bounds_def)

lemma edit_result_ok:
  "f_le (minVal p) (maxVal p) \<and> in_bounds p \<Longrightarrow>
     f_le (minVal (edit_result d p)) (maxVal (edit_result d p)) \<and> in_bounds (edit_result d p)"
  using edit_result_bounds [of p d] edit_result_fields [of d p]
  by (auto simp: in_bounds_def)

lemma list_all_update:
  "list_all P xs \<Longrightarrow> (k < length xs \<Longrightarrow> P y) \<Longrightarrow> list_all P (xs[k := y])"
proof (cases "k < length xs")
  case True
  assume "list_all P xs" and "k < length xs \<Longrightarrow> P y"
  then show ?thesis
    using True set_update_subset_insert [of xs k y] by (auto simp: list_all_iff)
next
  case False
  assume "list_all P xs"
  then show ?thesis
    using False by (simp add: list_update_beyond)
qed

lemma loop_params_ok:
  assumes "params_ok s"
  shows "params_ok (loop oor inp s)"
proof -
  define s1 where "s1 = fold (handle oor (encBtn inp)) (events inp) (mb_task (remote inp) s)"
  define s2 where "s2 = inbound_sync s1"
  define s3 where "s3 = encoder_step (encNow inp) s2"
  have loop: "loop oor inp s = outbound_sync oor (millis1 inp) (millis2 inp) s3"
    by (simp add: loop_def Let_def s1_def s2_def s3_def)
  have ps1: "params s1 = params s"
    by (simp add: s1_def handle_fold_frame mb_task_frame)
  have ok1: "params_ok s1"
    using assms by (simp add: params_ok_def ps1)
  have "params s2 = map (\<lambda>p. inbound_result p (hregs s1 (reg p))) (params s1)"
    unfolding s2_def using ok1 by (subst inbound_sync_eq) (simp_all add: params_ok_def)
  then have ok2: "params_ok s2"
    using ok1 inbound_result_ok by (auto simp: params_ok_def list_all_iff)
  have ok3: "params_ok s3"
  proof (cases "encNow inp \<noteq> encPrev s2 \<and> screen s2 = PARAM_EDIT")
    case False
    then show ?thesis
      using ok2 by (auto simp: s3_def encoder_step_params params_ok_def)
  next
    case True
    define k where "k = nat (editIndex s2)"
    have p3: "params s3 = (params s2)[k := edit_result (encNow inp - encPrev s2) (params s2 ! k)]"
      using True by (simp add: s3_def encoder_step_params k_def)
    have "k < length (params s2) \<Longrightarrow>
        f_le (minVal (params s2 ! k)) (maxVal (params s2 ! k)) \<and> in_bounds (params s2 ! k)"
      using ok2 by (simp add: params_ok_def list_all_length)
    then show ?thesis
      unfolding params_ok_def p3 using ok2
      by (auto simp: params_ok_def intro!: list_all_update edit_result_ok)
  qed
  show ?thesis
    using ok3 by (simp add: loop params_ok_def outbound_sync_params)
qed

lemma setup_params_ok: "params_ok (setup_state oor e)"
proof -
  have "list_all (\<lambda>p. f_le (minVal p) (maxVal p) \<and> in_bounds p) params0"
    by code_simp
  then show ?thesis
    by (simp add: params_ok_def setup_state_def PARAM_COUNT_def)
qed

lemma run_params_ok: "params_ok s \<Longrightarrow> params_ok (fold (loop oor) inps s)"
  by (induction inps arbitrary: s) (simp_all add: loop_params_ok)

lemma reachable_in_bounds:
  "list_all in_bounds (params (fold (loop oor) inps (setup_state oor e)))"
  using run_params_ok [OF setup_params_ok, of oor inps oor e]
  by (auto simp: params_ok_def list_all_iff)

section \<open>The values stay on the grid of their step\<close>

text \<open>
  A step of the table is 1.0 or \<^verbatim>\<open>0.01f\<close>, which is \<open>5368709 / 2^29\<close>. In a row with
  step 1.0 every value the loop computes is an integer: the bounds and the initial value
  are, a decoded register is, and so is \<open>value \<plusminus> 1\<close> rounded to binary32. In a row with
  step \<^verbatim>\<open>0.01f\<close> every value is a multiple of \<open>2^-29\<close>. Rounding keeps a magnitude on
  such a grid (\<open>round_mag_grid\<close>): it returns the magnitude itself or a multiple of a
  coarser power of two. Half a step, \<open>1 / 2\<close> or \<open>5368709 / 2^30\<close>, is not on the grid, so
  the distance between a decoded register and a value is never equal to it
  (\<open>row_ok_threshold\<close>).
\<close>

lemma is_int_Ints: "is_int x \<longleftrightarrow> x \<in> \<int>"
  by (auto simp: is_int_def Ints_def)

lemma pow2_powi: "pow2 k = 2 powi k"
  by (simp add: pow2_def power_int_def inverse_eq_divide power_one_over)

lemma pow2_pos: "0 < pow2 k"
  by (simp add: pow2_powi)

lemma pow2_add: "pow2 (a + b) = pow2 a * pow2 b"
  by (simp add: pow2_powi power_int_add)

lemma pow2_Ints: "0 \<le> k \<Longrightarrow> pow2 k \<in> \<int>"
  by (simp add: pow2_def)

lemma round_half_even_int: "x \<in> \<int> \<Longrightarrow> of_int (round_half_even x) = x"
  by (auto simp: round_half_even_def Let_def elim!: Ints_cases)

lemma round_half_even_nonneg: "0 \<le> x \<Longrightarrow> 0 \<le> round_half_even x"
  by (auto simp: round_half_even_def Let_def)

lemma round_mag_nonneg: "0 \<le> m \<Longrightarrow> 0 \<le> round_mag m"
  using pow2_pos
  by (auto simp: round_mag_def Let_def intro!: mult_nonneg_nonneg round_half_even_nonneg
      simp: less_imp_le)

lemma round_mag_grid:
  assumes "m / pow2 g \<in> \<int>"
  shows "round_mag m / pow2 g \<in> \<int>"
proof (cases "m = 0")
  case True
  then show ?thesis by (simp add: round_mag_def)
next
  case False
  define k where "k = max (ilog2 m) (- 126) - 23"
  define n where "n = round_half_even (m / pow2 k)"
  have rm: "round_mag m = of_int n * pow2 k"
    using False by (simp add: round_mag_def Let_def k_def n_def)
  show ?thesis
  proof (cases "k \<le> g")
    case True
    have "pow2 g = pow2 k * pow2 (g - k)"
      using pow2_add [of k "g - k"] by simp
    then have e: "m / pow2 k = (m / pow2 g) * pow2 (g - k)"
      using pow2_pos [of k] pow2_pos [of "g - k"] by (simp add: field_simps)
    have "0 \<le> g - k"
      using True by simp
    then have "(m / pow2 g) * pow2 (g - k) \<in> \<int>"
      by (intro Ints_mult assms pow2_Ints)
    then have "m / pow2 k \<in> \<int>"
      by (simp only: e)
    then have "of_int n = m / pow2 k"
      unfolding n_def by (rule round_half_even_int)
    then have "round_mag m = m"
      using pow2_pos [of k] by (simp add: rm)
    then show ?thesis using assms by simp
  next
    case False
    have "pow2 k = pow2 g * pow2 (k - g)"
      using pow2_add [of g "k - g"] by simp
    then have e: "round_mag m / pow2 g = of_int n * pow2 (k - g)"
      using pow2_pos [of g] by (simp add: rm)
    have "0 \<le> k - g"
      using False by simp
    then have "of_int n * pow2 (k - g) \<in> \<int>"
      by (intro Ints_mult Ints_of_int pow2_Ints)
    then show ?thesis
      by (simp only: e)
  qed
qed

lemma on_grid_pow2:
  "on_grid st m \<longleftrightarrow> m / pow2 (if st = Finite False 1 then 0 else - 29) \<in> \<int>"
  by (simp add: on_grid_def is_int_Ints pow2_def)

lemma on_grid_round: "on_grid st m \<Longrightarrow> on_grid st (round_mag m)"
  unfolding on_grid_pow2 by (rule round_mag_grid)

lemma on_grid_zero: "on_grid st 0"
  by (simp add: on_grid_def is_int_Ints)

lemma on_grid_int: "is_int h \<Longrightarrow> on_grid st h"
  by (auto simp: on_grid_def is_int_Ints)

lemma on_grid_add: "on_grid st a \<Longrightarrow> on_grid st b \<Longrightarrow> on_grid st (a + b)"
  by (auto simp: on_grid_def is_int_Ints distrib_right)

lemma on_grid_minus: "on_grid st a \<Longrightarrow> on_grid st (- a)"
  by (auto simp: on_grid_def is_int_Ints)

lemma on_grid_abs: "on_grid st a \<Longrightarrow> on_grid st \<bar>a\<bar>"
  by (cases "0 \<le> a") (simp_all add: on_grid_minus abs_if)

lemma on_grid_min: "on_grid st a \<Longrightarrow> on_grid st b \<Longrightarrow> on_grid st (min a b)"
  by (simp add: min_def)

lemma on_grid_scaled:
  "on_grid (Finite False 1) (of_int n * 1)"
  "on_grid (Finite False (5368709 / 536870912)) (of_int n * (5368709 / 536870912))"
proof -
  show "on_grid (Finite False 1) (of_int n * 1)"
    by (simp add: on_grid_def is_int_Ints)
  have "of_int n * (5368709 / 536870912) * 536870912 = (of_int (n * 5368709) :: rat)"
    by simp
  then have "of_int n * (5368709 / 536870912) * 536870912 \<in> (\<int> :: rat set)"
    by (simp only: Ints_of_int)
  then show "on_grid (Finite False (5368709 / 536870912)) (of_int n * (5368709 / 536870912))"
    by (simp add: on_grid_def is_int_Ints)
qed

lemma rnd32_cases: "rnd32 s m = Infinity s \<or> rnd32 s m = Finite s (round_mag m)"
  by (simp add: rnd32_def Let_def)

lemma clamp_f_grid:
  assumes "0 \<le> h" and "is_int h"
      and "x = Infinity sg \<or> x = Finite sg c \<and> 0 \<le> c \<and> on_grid st c"
  shows "\<exists>sg' v. clamp_f x (Finite False 0) (Finite False h) = Finite sg' v \<and>
           0 \<le> v \<and> v \<le> h \<and> (sg' \<longrightarrow> v = 0) \<and> on_grid st v"
proof (cases sg)
  case True
  then show ?thesis
    using assms by (auto simp: clamp_f_def f_gt_def on_grid_zero on_grid_int)
next
  case False
  then show ?thesis
    using assms by (auto simp: clamp_f_def f_gt_def on_grid_zero on_grid_int)
qed

lemma row_okE:
  assumes "row_ok p"
  obtains h sg v where "minVal p = Finite False 0" and "maxVal p = Finite False h"
    and "0 \<le> h" and "is_int h" and "pvalue p = Finite sg v" and "0 \<le> v" and "sg \<longrightarrow> v = 0"
    and "on_grid (step p) v" and "v \<le> h"
    and "step p = Finite False 1 \<or> step p = Finite False (5368709 / 536870912)"
  using assms by (auto simp: row_ok_def in_bounds_def split: f32.splits if_splits)

lemma row_ok_update:
  assumes "row_ok p"
      and "\<exists>sg v. w = Finite sg v \<and> 0 \<le> v \<and> (sg \<longrightarrow> v = 0) \<and> on_grid (step p) v \<and>
             f_le (Finite sg v) (maxVal p)"
  shows "row_ok (p\<lparr>pvalue := w\<rparr>)"
  using assms by (auto simp: row_ok_def in_bounds_def split: f32.splits)

lemma fromReg_grid:
  assumes "row_ok p"
  shows "fromReg p rv = Infinity False \<or>
         (\<exists>c. fromReg p rv = Finite False c \<and> 0 \<le> c \<and> on_grid (step p) c)"
proof -
  define r :: rat where "r = of_int (uint rv)"
  have r0: "0 \<le> r"
    unfolding r_def by (simp only: of_int_0_le_iff uint_ge_0)
  from assms have "step p = Finite False 1 \<or> step p = Finite False (5368709 / 536870912)"
    by (rule row_okE)
  then show ?thesis
  proof
    assume st: "step p = Finite False 1"
    have "on_grid (step p) r"
      unfolding r_def by (rule on_grid_int) (simp only: is_int_Ints Ints_of_int)
    then have "on_grid (step p) (round_mag r)"
      by (rule on_grid_round)
    moreover have "0 \<le> round_mag r"
      using r0 by (rule round_mag_nonneg)
    moreover have "fromReg p rv = rnd32 False r"
      by (simp add: fromReg_def f32_of_u16_def st r_def)
    ultimately show ?thesis
      using rnd32_cases [of False r] by auto
  next
    assume st: "step p = Finite False (5368709 / 536870912)"
    have "on_grid (step p) (r * (5368709 / 536870912))"
      unfolding st r_def by (rule on_grid_scaled)
    then have "on_grid (step p) (round_mag (r * (5368709 / 536870912)))"
      by (rule on_grid_round)
    moreover have "0 \<le> round_mag (r * (5368709 / 536870912))"
      using r0 by (intro round_mag_nonneg) simp
    moreover have "fromReg p rv = rnd32 False (r * (5368709 / 536870912))"
      by (simp add: fromReg_def f32_of_u16_def st r_def)
    ultimately show ?thesis
      using rnd32_cases [of False "r * (5368709 / 536870912)"] by auto
  qed
qed

lemma step_grid:
  assumes "row_ok p"
  obtains q where "step p = Finite False q" and "0 < q" and "on_grid (step p) q"
proof -
  from assms have "step p = Finite False 1 \<or> step p = Finite False (5368709 / 536870912)"
    by (rule row_okE)
  then show ?thesis
  proof
    assume st: "step p = Finite False 1"
    show ?thesis
      by (rule that [of 1]) (simp_all add: st on_grid_def is_int_Ints)
  next
    assume st: "step p = Finite False (5368709 / 536870912)"
    show ?thesis
      using on_grid_scaled(2) [of 1]
      by (intro that [of "5368709 / 536870912"]) (simp_all add: st)
  qed
qed

lemma f_add_grid:
  assumes "0 \<le> a" and "0 \<le> b" and "on_grid st a" and "on_grid st b"
  shows "\<exists>sg. f_add (Finite s a) (Finite t b) = Infinity sg \<or>
           (\<exists>c. f_add (Finite s a) (Finite t b) = Finite sg c \<and> 0 \<le> c \<and> on_grid st c)"
proof -
  define v where "v = sval s a + sval t b"
  have g: "on_grid st v"
    using assms(3,4) by (auto simp: v_def on_grid_add on_grid_minus)
  show ?thesis
  proof (cases "v = 0")
    case True
    then have "f_add (Finite s a) (Finite t b) = Finite (s \<and> t) 0"
      by (simp add: v_def Let_def)
    then show ?thesis
      using on_grid_zero by auto
  next
    case False
    then have "f_add (Finite s a) (Finite t b) = rnd32 (v < 0) \<bar>v\<bar>"
      by (simp add: v_def Let_def)
    moreover have "on_grid st (round_mag \<bar>v\<bar>)"
      using g by (intro on_grid_round on_grid_abs)
    moreover have "0 \<le> round_mag \<bar>v\<bar>"
      by (rule round_mag_nonneg) simp
    ultimately show ?thesis
      using rnd32_cases [of "v < 0" "\<bar>v\<bar>"] by auto
  qed
qed

lemma clamp_row_ok:
  assumes "row_ok p"
      and "x = Infinity sg \<or> x = Finite sg c \<and> 0 \<le> c \<and> on_grid (step p) c"
  shows "row_ok (p\<lparr>pvalue := clamp_f x (minVal p) (maxVal p)\<rparr>)"
proof -
  from assms(1) obtain h where lo: "minVal p = Finite False 0" and hi: "maxVal p = Finite False h"
    and h: "0 \<le> h" "is_int h"
    by (rule row_okE)
  obtain sg' v where "clamp_f x (Finite False 0) (Finite False h) = Finite sg' v"
    and "0 \<le> v" and "v \<le> h" and "sg' \<longrightarrow> v = 0" and "on_grid (step p) v"
    using clamp_f_grid [OF h assms(2)] by blast
  then show ?thesis
    using assms(1) by (intro row_ok_update) (auto simp: lo hi)
qed

lemma inbound_result_row_ok:
  assumes "row_ok p"
  shows "row_ok (inbound_result p rv)"
proof (cases "f_gt (fabsf (f_sub (fromReg p rv) (pvalue p))) (f_mul (step p) half)")
  case False
  then show ?thesis
    using assms by (simp add: inbound_result_def)
next
  case True
  obtain c where "fromReg p rv = Infinity False \<or>
      fromReg p rv = Finite False c \<and> 0 \<le> c \<and> on_grid (step p) c"
    using fromReg_grid [OF assms, of rv] by blast
  then have "row_ok (p\<lparr>pvalue := clamp_f (fromReg p rv) (minVal p) (maxVal p)\<rparr>)"
    by (rule clamp_row_ok [OF assms])
  then show ?thesis
    using True by (simp add: inbound_result_def)
qed

lemma edit_result_row_ok:
  assumes "row_ok p"
  shows "row_ok (edit_result d p)"
proof -
  from assms obtain sg v where pv: "pvalue p = Finite sg v" and v: "0 \<le> v" "on_grid (step p) v"
    by (rule row_okE)
  from assms obtain q where st: "step p = Finite False q" and q: "0 < q" "on_grid (step p) q"
    by (rule step_grid)
  define x where "x = f_add (pvalue p) (if d > 0 then step p else f_neg (step p))"
  define t where "t = (\<not> d > 0)"
  have "x = f_add (Finite sg v) (Finite t q)"
    by (simp add: x_def pv st t_def del: f_add.simps)
  then have "\<exists>sg'. x = Infinity sg' \<or> (\<exists>c. x = Finite sg' c \<and> 0 \<le> c \<and> on_grid (step p) c)"
    using f_add_grid [of v q "step p" sg t] v q by (simp del: f_add.simps)
  then obtain sg' c where "x = Infinity sg' \<or> x = Finite sg' c \<and> 0 \<le> c \<and> on_grid (step p) c"
    by blast
  then have "row_ok (p\<lparr>pvalue := clamp_f x (minVal p) (maxVal p)\<rparr>)"
    by (rule clamp_row_ok [OF assms])
  then show ?thesis
    using assms by (simp add: edit_result_def Let_def x_def del: f_add.simps)
qed

lemma thresholds:
  "f_mul (Finite False 1) half = Finite False (1 / 2)"
  "f_mul (Finite False (5368709 / 536870912)) half = Finite False (5368709 / 1073741824)"
  by code_simp+

lemma off_grid:
  "\<not> on_grid (Finite False 1) (1 / 2)"
  "\<not> on_grid (Finite False (5368709 / 536870912)) (5368709 / 1073741824)"
  by code_simp+

lemma threshold_off_grid:
  assumes "row_ok p"
  obtains t where "f_mul (step p) half = Finite False t" and "\<not> on_grid (step p) t"
proof -
  from assms have "step p = Finite False 1 \<or> step p = Finite False (5368709 / 536870912)"
    by (rule row_okE)
  then show ?thesis
  proof
    assume st: "step p = Finite False 1"
    show ?thesis
      by (rule that [of "1 / 2"]) (simp_all only: st thresholds off_grid not_False_eq_True)
  next
    assume st: "step p = Finite False (5368709 / 536870912)"
    show ?thesis
      by (rule that [of "5368709 / 1073741824"])
        (simp_all only: st thresholds off_grid not_False_eq_True)
  qed
qed

lemma distance_grid:
  assumes "row_ok p"
  shows "fabsf (f_sub (fromReg p rv) (pvalue p)) = Infinity False \<or>
         (\<exists>m. fabsf (f_sub (fromReg p rv) (pvalue p)) = Finite False m \<and> on_grid (step p) m)"
proof -
  from assms obtain sg v where pv: "pvalue p = Finite sg v" and v: "0 \<le> v" "on_grid (step p) v"
    by (rule row_okE)
  from fromReg_grid [OF assms, of rv] show ?thesis
  proof (elim disjE exE conjE)
    assume "fromReg p rv = Infinity False"
    then show ?thesis
      by (simp add: f_sub_def pv)
  next
    fix c assume c: "fromReg p rv = Finite False c" "0 \<le> c" "on_grid (step p) c"
    obtain s' where "f_add (Finite False c) (Finite (\<not> sg) v) = Infinity s' \<or>
        (\<exists>m. f_add (Finite False c) (Finite (\<not> sg) v) = Finite s' m \<and> 0 \<le> m \<and> on_grid (step p) m)"
      using f_add_grid [OF c(2) v(1) c(3) v(2), of False "\<not> sg"] by blast
    then show ?thesis
      by (auto simp: f_sub_def pv c(1))
  qed
qed

lemma row_ok_threshold:
  assumes "row_ok p"
  shows "f_ge (fabsf (f_sub (fromReg p rv) (pvalue p))) (f_mul (step p) half) =
           f_gt (fabsf (f_sub (fromReg p rv) (pvalue p))) (f_mul (step p) half)"
    and "f_ge (fabsf (f_sub (fromReg p rv) (pvalue p))) (f_mul (step p) half) \<or>
         f_lt (fabsf (f_sub (fromReg p rv) (pvalue p))) (f_mul (step p) half)"
proof -
  from assms obtain t where t: "f_mul (step p) half = Finite False t" "\<not> on_grid (step p) t"
    by (rule threshold_off_grid)
  define d where "d = fabsf (f_sub (fromReg p rv) (pvalue p))"
  have "d = Infinity False \<or> (\<exists>m. d = Finite False m \<and> m \<noteq> t)"
    using distance_grid [OF assms, of rv] t(2) by (auto simp: d_def)
  then have "f_ge d (f_mul (step p) half) = f_gt d (f_mul (step p) half) \<and>
      (f_ge d (f_mul (step p) half) \<or> f_lt d (f_mul (step p) half))"
    unfolding t(1) by (auto simp: f_ge_def f_gt_def)
  then show "f_ge (fabsf (f_sub (fromReg p rv) (pvalue p))) (f_mul (step p) half) =
           f_gt (fabsf (f_sub (fromReg p rv) (pvalue p))) (f_mul (step p) half)"
    and "f_ge (fabsf (f_sub (fromReg p rv) (pvalue p))) (f_mul (step p) half) \<or>
         f_lt (fabsf (f_sub (fromReg p rv) (pvalue p))) (f_mul (step p) half)"
    unfolding d_def by blast+
qed

lemma loop_rows_ok:
  assumes "rows_ok s"
  shows "rows_ok (loop oor inp s)"
proof -
  define s1 where "s1 = fold (handle oor (encBtn inp)) (events inp) (mb_task (remote inp) s)"
  define s2 where "s2 = inbound_sync s1"
  define s3 where "s3 = encoder_step (encNow inp) s2"
  have loop: "loop oor inp s = outbound_sync oor (millis1 inp) (millis2 inp) s3"
    by (simp add: loop_def Let_def s1_def s2_def s3_def)
  have ps1: "params s1 = params s"
    by (simp add: s1_def handle_fold_frame mb_task_frame)
  have ok1: "rows_ok s1"
    using assms by (simp add: rows_ok_def ps1)
  have "params s2 = map (\<lambda>p. inbound_result p (hregs s1 (reg p))) (params s1)"
    unfolding s2_def using ok1 by (subst inbound_sync_eq) (simp_all add: rows_ok_def)
  then have ok2: "rows_ok s2"
    using ok1 inbound_result_row_ok by (auto simp: rows_ok_def list_all_iff)
  have ok3: "rows_ok s3"
  proof (cases "encNow inp \<noteq> encPrev s2 \<and> screen s2 = PARAM_EDIT")
    case False
    then show ?thesis
      using ok2 by (auto simp: s3_def encoder_step_params rows_ok_def)
  next
    case True
    define k where "k = nat (editIndex s2)"
    have p3: "params s3 = (params s2)[k := edit_result (encNow inp - encPrev s2) (params s2 ! k)]"
      using True by (simp add: s3_def encoder_step_params k_def)
    have "k < length (params s2) \<Longrightarrow> row_ok (params s2 ! k)"
      using ok2 by (simp add: rows_ok_def list_all_length)
    then show ?thesis
      unfolding rows_ok_def p3 using ok2
      by (auto simp: rows_ok_def intro!: list_all_update edit_result_row_ok)
  qed
  show ?thesis
    using ok3 by (simp add: loop rows_ok_def outbound_sync_params)
qed

lemma setup_rows_ok: "rows_ok (setup_state oor e)"
proof -
  have "list_all row_ok params0"
    by code_simp
  then show ?thesis
    by (simp add: rows_ok_def setup_state_def PARAM_COUNT_def)
qed

lemma run_rows_ok: "rows_ok s \<Longrightarrow> rows_ok (fold (loop oor) inps s)"
  by (induction inps arbitrary: s) (simp_all add: loop_rows_ok)

lemma inbound_start_rows_ok:
  "rows_ok (fold (handle oor eb) evs (mb_task ws (fold (loop oor) inps (setup_state oor e))))"
  using run_rows_ok [OF setup_rows_ok, of oor inps oor e]
  by (simp add: rows_ok_def handle_fold_frame mb_task_frame)

section \<open>Serial configuration\<close>

lemma BAUD_COUNT_8: "BAUD_COUNT = 8"
  by (simp add: BAUD_COUNT_def BAUDS_def)

lemma baud_search_rows:
  "baud_search 0 1200 = 0" "baud_search 0 2400 = 1" "baud_search 0 4800 = 2"
  "baud_search 0 9600 = 3" "baud_search 0 19200 = 4" "baud_search 0 38400 = 5"
  "baud_search 0 57600 = 6" "baud_search 0 115200 = 7"
  by (simp_all add: baud_search.simps BAUD_COUNT_def BAUDS_def)

lemma baud_search_table: "i < 8 \<Longrightarrow> baud_search 0 (BAUDS ! i) = i"
  by (auto simp add: eval_nat_numeral less_Suc_eq BAUDS_def baud_search_rows)

lemma parity_search_rows:
  "parity_search 0 CHR ''N'' = 0" "parity_search 0 CHR ''E'' = 1"
  "parity_search 0 CHR ''O'' = 2"
  by (simp_all add: parity_search.simps parity_order_def)

lemma parity_search_table: "i < 3 \<Longrightarrow> parity_search 0 (parity_order ! i) = i"
  by (auto simp add: eval_nat_numeral less_Suc_eq parity_order_def parity_search_rows)

lemma clamp_i_min_max: "lo \<le> hi \<Longrightarrow> clamp_i v lo hi = min hi (max lo v)"
  by (simp add: clamp_i_def)

lemma serial_edit_baud:
  "i < 8 \<Longrightarrow> baud c = BAUDS ! i \<Longrightarrow>
     serial_edit diff BAUD c =
       c\<lparr>baud := BAUDS ! nat (min 7 (max 0 (int i + (if diff > 0 then 1 else - 1))))\<rparr>"
  by (simp add: serial_edit_def baud_search_table clamp_i_min_max BAUD_COUNT_8)

lemma serial_edit_parity:
  "i < 3 \<Longrightarrow> parity c = parity_order ! i \<Longrightarrow>
     serial_edit diff PARITY c =
       c\<lparr>parity := parity_order ! nat ((int i + (if diff > 0 then 1 else - 1) + 3) mod 3)\<rparr>"
  by (simp add: serial_edit_def parity_search_table)

lemma serial_edit_bits:
  "serial_edit diff DATABITS c = c\<lparr>dataBits := (if diff > 0 then 8 else 7)\<rparr>"
  "serial_edit diff STOPBITS c = c\<lparr>stopBits := (if diff > 0 then 2 else 1)\<rparr>"
  by (simp_all add: serial_edit_def)

lemma encoder_step_serial_edit:
  "screen s = SERIAL_EDIT \<Longrightarrow> now \<noteq> encPrev s \<Longrightarrow>
     encoder_step now s =
       s\<lparr>encPrev := now, scfg := serial_edit (now - encPrev s) (serialField s) (scfg s),
         drawn := drawn s @ [DrawSerialEdit]\<rparr>"
  by (simp add: encoder_step_def on_rotate_def draw_def)

lemma st_serial_facts:
  "screen st_serial = SERIAL_EDIT" "encPrev st_serial = 0" "serialField st_serial = BAUD"
  "scfg st_serial = scfg0"
  by (simp_all add: st_serial_def st_boot_eval)

section \<open>Facts about the example states\<close>

lemma st_boot_len: "length (params st_boot) = PARAM_COUNT"
  by (simp add: st_boot_eval PARAM_COUNT_def)

lemma st_boot_regs: "map reg (params st_boot) = [1, 2, 3, 4, 5, 6, 7]"
  by (simp add: st_boot_eval params0_def reg_rows)


lemma st_edit_tds_reg: "reg (params st_edit_tds ! Suc 0) = 2"
  by (simp add: st_edit_tds_def st_boot_eval params0_def reg_rows)

lemma st_edit_tds_toReg: "toReg (\<lambda>x. 0) (params st_edit_tds ! Suc 0) = 500"
  by (simp add: st_edit_tds_def st_boot_eval params0_def toReg_rows)

lemma st_edit_tds_hreg: "hregs st_edit_tds 2 = 500"
  by (simp add: st_edit_tds_def st_boot_eval)

lemma st_edit_tds_value: "pvalue (params st_edit_tds ! 1) = Finite False 500"
  by (simp add: st_edit_tds_def st_boot_eval params0_def rows)

lemma st_edit_tds_rotated: "pvalue (params (encoder_step 1 st_edit_tds) ! 1) = Finite False 501"
  by code_simp

lemma trace_nth:
  "k \<le> length xs \<Longrightarrow> trace oor s xs ! k = fold (loop oor) (take k xs) s"
proof (induction xs arbitrary: s k)
  case Nil
  then show ?case by simp
next
  case (Cons x xs)
  then show ?case by (cases k) simp_all
qed

section \<open>The register codec\<close>

subsection \<open>The round trip at the upper bound of NH3-N\<close>

lemma nh3n_max_value: "pvalue nh3n_max = Finite False 1000"
  by (simp add: nh3n_max_def with_value_def rows)

lemma nh3n_max_step: "step nh3n_max = Finite False (5368709 / 536870912)"
  by (simp add: nh3n_max_def with_value_def rows)

lemma nh3n_max_scaled: "f_div (pvalue nh3n_max) (step nh3n_max) = Finite False 100000"
  by code_simp

lemma nh3n_max_lround: "lroundf oor (Finite False 100000) = 100000"
  by code_simp

lemma nh3n_max_toReg: "toReg oor nh3n_max = 34464"
  by code_simp

lemma nh3n_max_back: "fromReg nh3n_max 34464 = Finite False (11293163 / 32768)"
  by code_simp

lemma nh3n_max_roundtrip: "\<not> roundtrip_ok oor nh3n_max"
  by code_simp

lemma roundtrip_min_mid:
  "list_all (\<lambda>p. roundtrip_ok oor (with_value p (minVal p)) \<and>
                 roundtrip_ok oor (with_value p (midpoint p))) params0"
  by code_simp

lemma roundtrip_max_first_six:
  "list_all (\<lambda>p. roundtrip_ok oor (with_value p (maxVal p))) (butlast params0)"
  by code_simp

text \<open>
  C1. The round trip \<open>fromReg p (toReg p)\<close> on the NH3-N row with \<open>value = maxVal = 1000.0\<close>
  and \<open>step = 0.01f\<close>: the register gets 34464, which decodes to
  \<open>11293163 / 32768 = 344.64\<close>, and the distance from 1000.0 is not below the step.
  In the other twenty cases (each row at its lower bound and midpoint, the first six
  rows at their upper bound) the distance is below the step: \<open>roundtrip_min_mid\<close> and
  \<open>roundtrip_max_first_six\<close>.
\<close>

theorem roundtrip_fails_nh3n_max:
  "pvalue nh3n_max = Finite False 1000 \<and>
   step nh3n_max = Finite False (5368709 / 536870912) \<and>
   fromReg nh3n_max (toReg oor nh3n_max) = Finite False (11293163 / 32768) \<and>
   \<not> roundtrip_ok oor nh3n_max"
  by (simp add: nh3n_max_value nh3n_max_step nh3n_max_toReg nh3n_max_back nh3n_max_roundtrip)

subsection \<open>The cast in \<^verbatim>\<open>toReg\<close>\<close>

lemma toReg_at_nh3n_max:
  "f_div (pvalue nh3n_max) (step nh3n_max) = Finite False 100000 \<and>
   lroundf oor (Finite False 100000) = 100000 \<and> toReg oor nh3n_max = 34464"
  by (simp add: nh3n_max_scaled nh3n_max_toReg nh3n_max_lround del: lroundf.simps)

lemma toReg_finite:
  assumes "f_div (pvalue p) (step p) = Finite sg m" and "0 \<le> m" and "\<lfloor>m + 1 / 2\<rfloor> < 2 ^ 31"
  shows "toReg oor p = (if sg then 0 else word_of_int \<lfloor>m + 1 / 2\<rfloor>)"
proof -
  have nonneg: "0 \<le> \<lfloor>m + 1 / 2\<rfloor>"
    using assms(2) by simp
  have zero: "\<lfloor>(1::rat) / 2\<rfloor> = 0"
    by (simp add: floor_eq_iff)
  show ?thesis
  proof (cases "sg \<and> 0 < m")
    case True
    then show ?thesis
      using assms by (simp add: toReg_def Let_def zero)
  next
    case False
    then have "sg \<longrightarrow> m = 0"
      using assms(2) by auto
    then show ?thesis
      using assms nonneg False by (auto simp add: toReg_def Let_def zero)
  qed
qed

lemma nh3n_run_view:
  "nh3n_view (fold (loop (\<lambda>x. 0)) nh3n_run st_boot) =
     (PARAM_EDIT, 6, Finite False (5368709 / 8192), 0, [(7, 0)])"
  by code_simp

lemma nh3n_wrapped_scaled:
  "f_div (pvalue nh3n_wrapped) (step nh3n_wrapped) = Finite False 65536"
  by code_simp

lemma nh3n_wrapped_lround: "lroundf oor (Finite False 65536) = 65536"
  by code_simp

lemma nh3n_wrapped_toReg: "toReg oor nh3n_wrapped = 0"
  by code_simp

lemma nh3n_wrapped_absorbed: "pvalue (inbound_result nh3n_wrapped 0) = Finite False 0"
  by code_simp

text \<open>
  C2. \<open>toReg\<close> does not stop at 65535. The run \<open>nh3n_run\<close> from \<^verbatim>\<open>setup()\<close> ends on the
  edit screen of NH3-N with the value at \<open>5368709 / 8192 = 655.36\<close> (the remote 65535,
  decoded, plus one step). For this value the quotient \<open>value / step\<close> is 65536,
  \<^verbatim>\<open>lroundf\<close> returns 65536 and the cast to \<^verbatim>\<open>uint16_t\<close> leaves 0: the outbound pass
  of the run has written 0 to register 7, and the next inbound pass, reading 0, sets
  the value to 0.0. At the upper bound 1000.0 the result is \<open>100000 mod 65536 = 34464\<close>
  (\<open>toReg_at_nh3n_max\<close>). In general (\<open>toReg_finite\<close>) a negative quotient gives 0 and
  any other finite quotient whose rounding fits a \<^verbatim>\<open>long\<close> gives the low 16 bits of
  the rounded integer.
\<close>

theorem toReg_wraps_in_run:
  "nh3n_view (fold (loop (\<lambda>x. 0)) nh3n_run (setup_state (\<lambda>x. 0) 0)) =
     (PARAM_EDIT, 6, Finite False (5368709 / 8192), 0, [(7, 0)]) \<and>
   f_div (pvalue nh3n_wrapped) (step nh3n_wrapped) = Finite False 65536 \<and>
   lroundf oor (Finite False 65536) = 65536 \<and>
   toReg oor nh3n_wrapped = 0 \<and>
   pvalue (inbound_result nh3n_wrapped 0) = Finite False 0"
  using nh3n_run_view nh3n_wrapped_scaled nh3n_wrapped_lround nh3n_wrapped_toReg
    nh3n_wrapped_absorbed
  by (simp add: st_boot_def)

section \<open>The threshold of the inbound pass\<close>

lemma st_remote_600_ge:
  "f_ge (fabsf (f_sub (fromReg (params st_remote_600 ! 1)
                        (hregs st_remote_600 (reg (params st_remote_600 ! 1))))
                 (pvalue (params st_remote_600 ! 1))))
     (f_mul (step (params st_remote_600 ! 1)) half)"
  by code_simp

lemma st_remote_600_clamp:
  "clamp_f (fromReg (params st_remote_600 ! 1)
              (hregs st_remote_600 (reg (params st_remote_600 ! 1))))
     (minVal (params st_remote_600 ! 1)) (maxVal (params st_remote_600 ! 1)) = Finite False 600"
  by code_simp

text \<open>
  C3. In every pass of the loop, in every run from \<^verbatim>\<open>setup()\<close>, and for every parameter
  \<open>p\<close>, with \<open>cand\<close> the decoding of the content of its register when the inbound pass
  starts: if \<open>|cand - value| \<ge> step / 2\<close>, the inbound pass replaces the value by
  \<open>cand\<close> clamped to \<open>[minVal, maxVal]\<close>; if \<open>|cand - value| < step / 2\<close>, it leaves the
  parameter as it is; and one of the two is the case. The distance and \<open>step / 2\<close> are
  the binary32 values the source computes. The source tests with \<^verbatim>\<open>>\<close>; in a run the
  distance is never equal to \<open>step / 2\<close>, because the values and the decoded registers
  are on the grid of their step and \<open>step / 2\<close> is not (\<open>row_ok_threshold\<close>). The pass
  does not change the register table.
\<close>

theorem inbound_overwrites_iff_half_step:
  assumes "i < PARAM_COUNT"
  shows "let s = fold (loop oor) inps (setup_state oor e);
             s1 = fold (handle oor (encBtn inp)) (events inp) (mb_task (remote inp) s);
             p = params s1 ! i;
             cand = fromReg p (hregs s1 (reg p));
             dist = fabsf (f_sub cand (pvalue p));
             p' = params (inbound_sync s1) ! i
         in (f_ge dist (f_mul (step p) half) \<longrightarrow>
               p' = p\<lparr>pvalue := clamp_f cand (minVal p) (maxVal p)\<rparr>) \<and>
            (f_lt dist (f_mul (step p) half) \<longrightarrow> p' = p) \<and>
            (f_ge dist (f_mul (step p) half) \<or> f_lt dist (f_mul (step p) half)) \<and>
            hregs (inbound_sync s1) = hregs s1"
proof -
  define s1 where "s1 = fold (handle oor (encBtn inp)) (events inp)
      (mb_task (remote inp) (fold (loop oor) inps (setup_state oor e)))"
  define p where "p = params s1 ! i"
  define dist where "dist = fabsf (f_sub (fromReg p (hregs s1 (reg p))) (pvalue p))"
  have ok: "rows_ok s1"
    unfolding s1_def by (rule inbound_start_rows_ok)
  then have len: "length (params s1) = PARAM_COUNT"
    by (simp add: rows_ok_def)
  have "row_ok p"
    using ok assms by (simp add: rows_ok_def list_all_length p_def)
  then have ge: "f_ge dist (f_mul (step p) half) = f_gt dist (f_mul (step p) half)"
    and total: "f_ge dist (f_mul (step p) half) \<or> f_lt dist (f_mul (step p) half)"
    unfolding dist_def by (rule row_ok_threshold)+
  have lt: "f_lt dist (f_mul (step p) half) \<Longrightarrow> \<not> f_gt dist (f_mul (step p) half)"
    by (cases dist; cases "f_mul (step p) half") (auto simp: f_gt_def)
  have hr: "hregs (inbound_sync s1) = hregs s1"
    by (rule inbound_sync_nth(2) [OF len assms])
  have "params (inbound_sync s1) ! i = inbound_result p (hregs s1 (reg p))"
    unfolding p_def by (rule inbound_sync_nth(1) [OF len assms])
  then show ?thesis
    unfolding Let_def s1_def [symmetric] p_def [symmetric] dist_def [symmetric]
    using ge total lt hr by (auto simp: inbound_result_def dist_def)
qed

theorem inbound_overwrites_iff_half_step_witness:
  "1 < PARAM_COUNT \<and>
   f_ge (fabsf (f_sub (fromReg (params st_remote_600 ! 1)
                        (hregs st_remote_600 (reg (params st_remote_600 ! 1))))
                 (pvalue (params st_remote_600 ! 1))))
     (f_mul (step (params st_remote_600 ! 1)) half) \<and>
   pvalue (params (inbound_sync st_remote_600) ! 1) = Finite False 600"
proof -
  have i: "1 < PARAM_COUNT"
    by (simp add: PARAM_COUNT_7)
  have s1: "fold (handle (\<lambda>x. 0) (encBtn (quiet_tick [(2, 600)] 0)))
      (events (quiet_tick [(2, 600)] 0))
      (mb_task (remote (quiet_tick [(2, 600)] 0)) (fold (loop (\<lambda>x. 0)) [] (setup_state (\<lambda>x. 0) 0))) =
      st_remote_600"
    by (simp add: quiet_tick_def st_remote_600_def st_boot_def)
  show ?thesis
    using inbound_overwrites_iff_half_step [OF i, where oor = "\<lambda>x. 0"
        and inps = "[]" and e = 0 and inp = "quiet_tick [(2, 600)] 0"]
      st_remote_600_ge st_remote_600_clamp i
    unfolding Let_def s1 by simp
qed

section \<open>The bounds of the values\<close>














section \<open>Inbound before outbound\<close>














section \<open>What the outbound pass writes\<close>

text \<open>
  C6. When the outbound pass runs (more than 300 ms after \<open>tSync\<close>) on a table whose
  register addresses are pairwise distinct, its set calls are exactly
  \<open>(reg p, toReg p)\<close> for the parameters \<open>p\<close> whose register differs from \<open>toReg p\<close>, in
  table order: a register equal to its parameter's encoding is not written. Afterwards
  every parameter's register holds its encoding, every other address and the parameters
  are unchanged.
\<close>

theorem outbound_writes_iff_differs:
  assumes "length (params s) = PARAM_COUNT" and "distinct (map reg (params s))"
      and "300 < ms1 - tSync s"
  shows "let t = outbound_sync oor ms1 ms2 s
         in hwrites t =
              hwrites s @
              map (\<lambda>p. (reg p, toReg oor p))
                (filter (\<lambda>p. hregs s (reg p) \<noteq> toReg oor p) (params s)) \<and>
            (\<forall>p \<in> set (params s). hregs t (reg p) = toReg oor p) \<and>
            (\<forall>a. a \<notin> reg ` set (params s) \<longrightarrow> hregs t a = hregs s a) \<and>
            params t = params s"
proof -
  define s' where "s' = s\<lparr>tSync := ms2\<rparr>"
  have l: "length (params s') = PARAM_COUNT" and d: "distinct (map reg (params s'))"
    using assms by (simp_all add: s'_def)
  have t: "outbound_sync oor ms1 ms2 s = outbound_pass oor s'"
    using assms(3) by (simp add: outbound_sync_def s'_def)
  have "\<forall>p \<in> set (params s). hregs (outbound_pass oor s') (reg p) = toReg oor p"
  proof
    fix p assume "p \<in> set (params s)"
    then obtain i where "i < PARAM_COUNT" and "p = params s' ! i"
      using assms(1) by (auto simp: in_set_conv_nth s'_def)
    then show "hregs (outbound_pass oor s') (reg p) = toReg oor p"
      using outbound_pass_eq(3) [OF l d, of oor] by simp
  qed
  then show ?thesis
    unfolding Let_def t
    using outbound_pass_eq(1,2,4) [OF l d, of oor]
    by (simp add: s'_def out_writes_def)
qed

lemma st_tds_edited_len: "length (params st_tds_edited) = PARAM_COUNT"
  by (simp add: st_tds_edited_def encoder_step_params st_edit_tds_def st_boot_len)

lemma st_tds_edited_distinct: "distinct (map reg (params st_tds_edited))"
  by (simp add: st_tds_edited_def encoder_step_regs st_edit_tds_def st_boot_regs)

lemma st_tds_edited_due: "300 < 1000 - tSync st_tds_edited"
  by (simp add: st_tds_edited_def encoder_step_tSync st_edit_tds_def st_boot_eval)

lemma st_tds_edited_writes:
  "hwrites st_tds_edited @
     map (\<lambda>p. (reg p, toReg (\<lambda>x. 0) p))
       (filter (\<lambda>p. hregs st_tds_edited (reg p) \<noteq> toReg (\<lambda>x. 0) p) (params st_tds_edited)) =
   [(2, 501)]"
  by code_simp

theorem outbound_writes_iff_differs_witness:
  "length (params st_tds_edited) = PARAM_COUNT \<and> distinct (map reg (params st_tds_edited)) \<and>
   300 < 1000 - tSync st_tds_edited \<and>
   hwrites (outbound_sync (\<lambda>x. 0) 1000 1000 st_tds_edited) = [(2, 501)]"
  using outbound_writes_iff_differs [OF st_tds_edited_len st_tds_edited_distinct
      st_tds_edited_due, of "\<lambda>x. 0" 1000]
    st_tds_edited_len st_tds_edited_distinct st_tds_edited_due st_tds_edited_writes
  by (simp add: Let_def)

section \<open>Navigation and the serial edit screen\<close>

text \<open>
  C7. A Select press on the Home screen leads to the parameter list with the cursor at
  0; on the parameter list with the cursor at \<open>k\<close> it leads to the edit screen with
  \<open>editIndex = k\<close>; on the edit screen it writes \<open>toReg\<close> of the edited parameter to
  that parameter's register (one set call, the rest of the table and the parameters
  stay as they are) and leads back to the parameter list.
\<close>

theorem onSelect_transitions:
  "(screen s = HOME \<longrightarrow>
      screen (onSelect oor e s) = PARAM_LIST \<and> listIndex (onSelect oor e s) = 0) \<and>
   (screen s = PARAM_LIST \<longrightarrow>
      screen (onSelect oor e s) = PARAM_EDIT \<and> editIndex (onSelect oor e s) = listIndex s) \<and>
   (screen s = PARAM_EDIT \<longrightarrow>
      (let p = params s ! nat (editIndex s)
       in hregs (onSelect oor e s) = (hregs s)(reg p := toReg oor p) \<and>
          hwrites (onSelect oor e s) = hwrites s @ [(reg p, toReg oor p)] \<and>
          params (onSelect oor e s) = params s \<and>
          screen (onSelect oor e s) = PARAM_LIST))"
  by (simp add: onSelect_def draw_def Hreg_set_def Let_def)

theorem onSelect_transitions_witness:
  "screen st_boot = HOME \<and>
   screen (onSelect (\<lambda>x. 0) 4 st_boot) = PARAM_LIST \<and>
   listIndex (onSelect (\<lambda>x. 0) 4 st_boot) = 0 \<and>
   screen (st_boot\<lparr>screen := PARAM_LIST, listIndex := 2\<rparr>) = PARAM_LIST \<and>
   screen (onSelect (\<lambda>x. 0) 4 (st_boot\<lparr>screen := PARAM_LIST, listIndex := 2\<rparr>)) = PARAM_EDIT \<and>
   editIndex (onSelect (\<lambda>x. 0) 4 (st_boot\<lparr>screen := PARAM_LIST, listIndex := 2\<rparr>)) = 2 \<and>
   screen st_edit_tds = PARAM_EDIT \<and>
   hwrites (onSelect (\<lambda>x. 0) 4 st_edit_tds) = [(2, 500)] \<and>
   screen (onSelect (\<lambda>x. 0) 4 st_edit_tds) = PARAM_LIST"
proof -
  have home: "screen st_boot = HOME"
    by (simp add: st_boot_eval)
  have edit: "screen st_edit_tds = PARAM_EDIT" "hwrites st_edit_tds = []"
    "nat (editIndex st_edit_tds) = Suc 0"
    by (simp_all add: st_edit_tds_def st_boot_eval)
  show ?thesis
    using onSelect_transitions [of st_boot "\<lambda>x. 0" 4]
      onSelect_transitions [of "st_boot\<lparr>screen := PARAM_LIST, listIndex := 2\<rparr>" "\<lambda>x. 0" 4]
      onSelect_transitions [of st_edit_tds "\<lambda>x. 0" 4]
    by (simp add: home edit Let_def st_edit_tds_reg st_edit_tds_toReg)
qed

text \<open>
  C8. A Back press on the edit screen leads to the parameter list; whatever the encoder
  did on the edit screen just before, the register table is as it was before the
  rotation (no set call was made), and the parameters keep the values the rotation
  gave them.
\<close>

theorem onBack_keeps_rotation:
  "screen s = PARAM_EDIT \<Longrightarrow>
     screen (onBack (encoder_step now s)) = PARAM_LIST \<and>
     hregs (onBack (encoder_step now s)) = hregs s \<and>
     hwrites (onBack (encoder_step now s)) = hwrites s \<and>
     params (onBack (encoder_step now s)) = params (encoder_step now s)"
  by (simp add: onBack_def draw_def encoder_step_frame)

theorem onBack_keeps_rotation_witness:
  "screen st_edit_tds = PARAM_EDIT \<and>
   screen (onBack (encoder_step 1 st_edit_tds)) = PARAM_LIST \<and>
   hregs (onBack (encoder_step 1 st_edit_tds)) 2 = 500 \<and>
   pvalue (params st_edit_tds ! 1) = Finite False 500 \<and>
   pvalue (params (onBack (encoder_step 1 st_edit_tds)) ! 1) = Finite False 501"
proof -
  have a: "screen st_edit_tds = PARAM_EDIT"
    by (simp add: st_edit_tds_def)
  show ?thesis
    using onBack_keeps_rotation [OF a, of 1] a st_edit_tds_hreg st_edit_tds_value
      st_edit_tds_rotated
    by simp
qed

text \<open>
  The Back press keeps the edited value; what keeps it afterwards is the outbound pass.
  An edit made in a pass of the loop in which the outbound pass is not due leaves the
  register behind, and the inbound pass of the next pass of the loop takes the old
  value back from the register: TDS goes from 500 to 501 and back to 500.
\<close>

lemma unsynchronised_edit_undone:
  "map tds_view (trace (\<lambda>x. 0) st_edit_tds [tick_in [] [] 0 1 0, tick_in [] [] 0 1 0]) =
     [(Finite False 500, 500), (Finite False 501, 500), (Finite False 500, 500)]"
  by code_simp

text \<open>
  C9. On the serial edit screen a nonzero encoder difference changes only the selected
  field of the configuration: \<open>baud\<close> moves one place in \<open>BAUDS\<close> with the index kept
  within 0..7; \<open>parity\<close> moves one place in N, E, O with the index
  \<open>(i \<plusminus> 1 + 3) mod 3\<close>; \<open>dataBits\<close> becomes 8 for a positive difference and 7 for a
  negative one, \<open>stopBits\<close> 2 and 1. Parameters, register table, screen and selected
  field stay as they are.
\<close>

theorem serial_edit_policies:
  assumes "screen s = SERIAL_EDIT" and "now \<noteq> encPrev s"
  shows "let d = (if now - encPrev s > 0 then 1 else - 1);
             c = scfg s; c' = scfg (encoder_step now s)
         in (serialField s = BAUD \<longrightarrow>
               (\<forall>i<8. baud c = BAUDS ! i \<longrightarrow>
                  c' = c\<lparr>baud := BAUDS ! nat (min 7 (max 0 (int i + d)))\<rparr>)) \<and>
            (serialField s = PARITY \<longrightarrow>
               (\<forall>i<3. parity c = parity_order ! i \<longrightarrow>
                  c' = c\<lparr>parity := parity_order ! nat ((int i + d + 3) mod 3)\<rparr>)) \<and>
            (serialField s = DATABITS \<longrightarrow> c' = c\<lparr>dataBits := (if d > 0 then 8 else 7)\<rparr>) \<and>
            (serialField s = STOPBITS \<longrightarrow> c' = c\<lparr>stopBits := (if d > 0 then 2 else 1)\<rparr>) \<and>
            params (encoder_step now s) = params s \<and>
            hregs (encoder_step now s) = hregs s \<and>
            screen (encoder_step now s) = SERIAL_EDIT \<and>
            serialField (encoder_step now s) = serialField s"
proof -
  have d: "(0 < now - encPrev s) = (encPrev s < now)"
    by linarith
  show ?thesis
    using assms
    by (simp add: encoder_step_serial_edit Let_def serial_edit_baud serial_edit_parity
        serial_edit_bits d)
qed

theorem serial_edit_policies_witness:
  "screen st_serial = SERIAL_EDIT \<and> - 1 \<noteq> encPrev st_serial \<and>
   serialField st_serial = BAUD \<and> baud (scfg st_serial) = BAUDS ! 3 \<and>
   baud (scfg (encoder_step (- 1) st_serial)) = 4800 \<and>
   screen (st_serial\<lparr>serialField := PARITY\<rparr>) = SERIAL_EDIT \<and>
   - 1 \<noteq> encPrev (st_serial\<lparr>serialField := PARITY\<rparr>) \<and>
   parity (scfg (st_serial\<lparr>serialField := PARITY\<rparr>)) = parity_order ! 0 \<and>
   parity (scfg (encoder_step (- 1) (st_serial\<lparr>serialField := PARITY\<rparr>))) = CHR ''O''"
proof -
  have a: "screen st_serial = SERIAL_EDIT" and b: "- 1 \<noteq> encPrev st_serial"
    and f: "serialField st_serial = BAUD"
    by (simp_all add: st_serial_facts)
  have a': "screen (st_serial\<lparr>serialField := PARITY\<rparr>) = SERIAL_EDIT"
    and b': "- 1 \<noteq> encPrev (st_serial\<lparr>serialField := PARITY\<rparr>)"
    and f': "serialField (st_serial\<lparr>serialField := PARITY\<rparr>) = PARITY"
    by (simp_all add: st_serial_facts)
  have c: "baud (scfg st_serial) = BAUDS ! 3"
    by (simp add: st_serial_facts scfg0_def BAUDS_def)
  have c': "parity (scfg (st_serial\<lparr>serialField := PARITY\<rparr>)) = parity_order ! 0"
    by (simp add: st_serial_facts scfg0_def parity_order_def)
  note B = serial_edit_policies [OF a b, unfolded Let_def, THEN conjunct1, THEN mp, OF f,
      rule_format, of 3]
  have r: "baud (scfg (encoder_step (- 1) st_serial)) = 4800"
    using B c by (simp add: st_serial_facts BAUDS_def)
  note P = serial_edit_policies [OF a' b', unfolded Let_def, THEN conjunct2, THEN conjunct1,
      THEN mp, OF f', rule_format, of 0]
  have r': "parity (scfg (encoder_step (- 1) (st_serial\<lparr>serialField := PARITY\<rparr>))) = CHR ''O''"
    using P c' by (simp add: st_serial_facts parity_order_def)
  show ?thesis
    using a b a' b' c c' r r' f by blast
qed

text \<open>
  C10. On every screen other than Home the long-press handler returns the state as it
  is: screen, cursors, selected serial field, encoder baseline, parameters, serial
  configuration, register table and the list of drawn screens are all unchanged.
\<close>

theorem onSelectLong_noop: "screen s \<noteq> HOME \<Longrightarrow> onSelectLong e s = s"
  by (simp add: onSelectLong_def)

theorem onSelectLong_noop_witness:
  "screen st_edit_tds \<noteq> HOME \<and> onSelectLong 9 st_edit_tds = st_edit_tds"
proof -
  have a: "screen st_edit_tds \<noteq> HOME"
    by (simp add: st_edit_tds_def)
  show ?thesis
    using onSelectLong_noop [OF a, of 9] a by simp
qed

end
